theory Spec2Isabelle
  imports Main "HOL-Library.Char_ord" "HOL-Library.List_Lexorder" "HOL-Library.Multiset"
    "HOL-Library.AList"
begin

section \<open>Errors\<close>

text \<open>
  The exceptions that leave \<open>bundlewrap/group.py\<close>. The three messages built in the file
  are \<open>RepositoryError\<close>s; they are kept with their format arguments instead of the
  formatted text. \<open>PatternError\<close> is the \<open>re.error\<close> of the regular expression library,
  \<open>ValidationError\<close> is what \<open>validate_dict\<close> raises and \<open>NoSuchGroup\<close> is the exception
  of \<open>repo.get_group\<close>.
\<close>

datatype error =
    InvalidGroupName string
  | ValidationError string
  | PatternError string
  | NoSuchSubgroup string string
  | SubgroupLoop string "string list"
  | NoSuchGroup string

text \<open>The errors that the file raises itself as \<open>RepositoryError\<close>.\<close>

fun is_repository_error :: "error \<Rightarrow> bool" where
  "is_repository_error (InvalidGroupName n) = True"
| "is_repository_error (NoSuchSubgroup g s) = True"
| "is_repository_error (SubgroupLoop g chain) = True"
| "is_repository_error (ValidationError g) = False"
| "is_repository_error (PatternError p) = False"
| "is_repository_error (NoSuchGroup n) = False"

section \<open>The error chain of a subgroup loop\<close>

text \<open>
  The \<open>for\<close> loop of \<open>_build_error_chain\<close>, with \<open>error_chain\<close> as accumulator: a visited
  name is appended when exactly one of "the loop node is already in the chain" and "this
  is the loop node" holds.
\<close>

fun chain_loop :: "string \<Rightarrow> string list \<Rightarrow> string list \<Rightarrow> string list" where
  "chain_loop loop_node error_chain [] = error_chain"
| "chain_loop loop_node error_chain (visited # rest) =
     chain_loop loop_node
       (if (loop_node \<in> set error_chain) \<noteq> (loop_node = visited)
        then error_chain @ [visited] else error_chain)
       rest"

definition build_error_chain :: "string \<Rightarrow> string \<Rightarrow> string list \<Rightarrow> string list" where
  "build_error_chain loop_node last_node nodes_in_between =
     chain_loop loop_node [] nodes_in_between @ [last_node] @ [loop_node]"

text \<open>
  The direct construction the specification describes: the path from the first occurrence of
  the repeated name on, then the last name, then the repeated name again.
\<close>

definition slice_error_chain :: "string \<Rightarrow> string \<Rightarrow> string list \<Rightarrow> string list" where
  "slice_error_chain loop_node last_node nodes_in_between =
     dropWhile (\<lambda>v. v \<noteq> loop_node) nodes_in_between @ [last_node, loop_node]"

lemma chain_loop_started:
  "loop_node \<in> set acc \<Longrightarrow>
     chain_loop loop_node acc xs = acc @ filter (\<lambda>v. v \<noteq> loop_node) xs"
  by (induction xs arbitrary: acc) auto

lemma chain_loop_empty:
  "chain_loop loop_node [] xs =
     (case dropWhile (\<lambda>v. v \<noteq> loop_node) xs of
        [] \<Rightarrow> []
      | y # ys \<Rightarrow> y # filter (\<lambda>v. v \<noteq> loop_node) ys)"
proof (induction xs)
  case Nil
  show ?case by simp
next
  case (Cons x xs)
  show ?case
  proof (cases "x = loop_node")
    case True
    then show ?thesis by (simp add: chain_loop_started)
  next
    case False
    with Cons show ?thesis by auto
  qed
qed

lemma build_error_chain_general:
  "loop_node \<in> set xs \<Longrightarrow>
     build_error_chain loop_node last_node xs =
       loop_node # filter (\<lambda>v. v \<noteq> loop_node) (tl (dropWhile (\<lambda>v. v \<noteq> loop_node) xs))
         @ [last_node, loop_node]"
proof -
  assume mem: "loop_node \<in> set xs"
  then obtain ys where dw: "dropWhile (\<lambda>v. v \<noteq> loop_node) xs = loop_node # ys"
    by (metis (mono_tags, lifting) dropWhile_eq_Nil_conv hd_dropWhile list.collapse)
  show ?thesis
    by (simp add: build_error_chain_def chain_loop_empty dw)
qed

lemma filter_distinct_tail:
  "distinct (x # ys) \<Longrightarrow> filter (\<lambda>v. v \<noteq> x) ys = ys"
  by (induction ys) auto

text \<open>
  C3. For a duplicate-free path that contains the loop node, the toggle-based
  \<open>_build_error_chain\<close> returns the part of the path from the first occurrence of the loop
  node on, then the last node, then the loop node: the prefix before the loop node is dropped.
\<close>

theorem build_error_chain_is_slice:
  assumes "distinct nodes_in_between" and "loop_node \<in> set nodes_in_between"
  shows "build_error_chain loop_node last_node nodes_in_between =
           dropWhile (\<lambda>v. v \<noteq> loop_node) nodes_in_between @ [last_node] @ [loop_node]
         \<and> build_error_chain loop_node last_node nodes_in_between =
           slice_error_chain loop_node last_node nodes_in_between"
proof -
  obtain ys where dw: "dropWhile (\<lambda>v. v \<noteq> loop_node) nodes_in_between = loop_node # ys"
    using assms(2)
    by (metis (mono_tags, lifting) dropWhile_eq_Nil_conv hd_dropWhile list.collapse)
  have "distinct (dropWhile (\<lambda>v. v \<noteq> loop_node) nodes_in_between)"
    using assms(1) by (rule distinct_dropWhile)
  then have "filter (\<lambda>v. v \<noteq> loop_node) ys = ys"
    unfolding dw by (rule filter_distinct_tail)
  then show ?thesis
    using build_error_chain_general [OF assms(2), of last_node]
    by (simp add: dw slice_error_chain_def)
qed

theorem build_error_chain_is_slice_witness:
  "distinct [''root'', ''A'', ''B'', ''C''] \<and> ''A'' \<in> set [''root'', ''A'', ''B'', ''C'']
   \<and> build_error_chain ''A'' ''D'' [''root'', ''A'', ''B'', ''C''] = [''A'', ''B'', ''C'', ''D'', ''A'']"
  using build_error_chain_is_slice [of "[''root'', ''A'', ''B'', ''C'']" "''A''" "''D''"]
  by simp

section \<open>Groups, nodes and the repository\<close>

text \<open>
  A compiled regular expression is used through \<open>pattern.search(name) is not None\<close> only,
  so it is modelled by that test on names.
\<close>

type_synonym pattern = "string \<Rightarrow> bool"

text \<open>The values an attribute dictionary (\<open>infodict\<close>) can hold, and the type table.\<close>

datatype attr_value =
    Strings "string list"
  | Str string
  | Flag bool
  | Ints "int list"
  | Dict "(string \<times> string) list"
  | NoneValue

datatype attr_type = COLLECTION_OF_STRINGS | TUPLE_OF_INTS | TStr | TBool | TDict | TStrOrNone

type_synonym infodict = "(string \<times> attr_value) list"

definition GROUP_ATTR_DEFAULTS :: "(string \<times> attr_value) list" where
  "GROUP_ATTR_DEFAULTS =
     [(''cmd_wrapper_inner'', Str ''export LANG=C; {}''),
      (''cmd_wrapper_outer'', Str ''sudo sh -c {}''),
      (''dummy'', Flag False),
      (''kubectl_context'', NoneValue),
      (''locking_node'', NoneValue),
      (''os'', Str ''linux''),
      (''os_version'', Ints [0]),
      (''use_shadow_passwords'', Flag True)]"

definition GROUP_ATTR_TYPES :: "(string \<times> attr_type) list" where
  "GROUP_ATTR_TYPES =
     [(''bundles'', COLLECTION_OF_STRINGS),
      (''cmd_wrapper_inner'', TStr),
      (''cmd_wrapper_outer'', TStr),
      (''dummy'', TBool),
      (''kubectl_context'', TStrOrNone),
      (''locking_node'', TStrOrNone),
      (''member_patterns'', COLLECTION_OF_STRINGS),
      (''metadata'', TDict),
      (''os'', TStr),
      (''os_version'', TUPLE_OF_INTS),
      (''subgroups'', COLLECTION_OF_STRINGS),
      (''subgroup_patterns'', COLLECTION_OF_STRINGS),
      (''use_shadow_passwords'', TBool)]"

fun has_type :: "attr_value \<Rightarrow> attr_type \<Rightarrow> bool" where
  "has_type (Strings xs) COLLECTION_OF_STRINGS = True"
| "has_type (Ints xs) TUPLE_OF_INTS = True"
| "has_type (Str s) TStr = True"
| "has_type (Flag b) TBool = True"
| "has_type (Dict d) TDict = True"
| "has_type (Str s) TStrOrNone = True"
| "has_type NoneValue TStrOrNone = True"
| "has_type v t = False"

text \<open>
  Modelled from the spec: \<open>validate_dict\<close> of \<open>bundlewrap.utils.dicts\<close>, which is not part
  of \<open>group.py\<close>. It fails when the dictionary has a key outside the schema or a
  value of the wrong type for a recognized key; \<open>True\<close> is "passes".
\<close>

definition validate_dict :: "infodict \<Rightarrow> (string \<times> attr_type) list \<Rightarrow> bool" where
  "validate_dict candidate schema =
     list_all (\<lambda>(k, v). case map_of schema k of None \<Rightarrow> False | Some t \<Rightarrow> has_type v t)
       candidate"

text \<open>\<open>infodict.get(key, [])\<close> for a collection of strings, \<open>infodict.get(key, {})\<close> for a mapping.\<close>

definition get_strings :: "infodict \<Rightarrow> string \<Rightarrow> string list" where
  "get_strings infodict key = (case map_of infodict key of Some (Strings xs) \<Rightarrow> xs | _ \<Rightarrow> [])"

definition get_dict :: "infodict \<Rightarrow> string \<Rightarrow> (string \<times> string) list" where
  "get_dict infodict key = (case map_of infodict key of Some (Dict d) \<Rightarrow> d | _ \<Rightarrow> [])"

text \<open>
  A \<open>Group\<close> object. \<open>oid\<close> is the identity of the object: the class defines \<open>__lt__\<close> but
  neither \<open>__eq__\<close> nor \<open>__ne__\<close>, so \<open>==\<close> and \<open>!=\<close> on groups compare identities. The two
  pattern sets are kept as lists, in the order in which the sets are iterated.
\<close>

record group =
  oid :: nat
  name :: string
  bundle_names :: "string list"
  immediate_subgroup_names :: "string list"
  immediate_subgroup_patterns :: "pattern list"
  metadata :: "(string \<times> string) list"
  member_patterns :: "pattern list"
  attrs :: "(string \<times> attr_value option) list"

text \<open>
  The set comprehension \<open>{re.compile(pattern) for pattern in ...}\<close>: \<open>re_compile\<close> is the
  library's \<open>re.compile\<close>, \<open>None\<close> where it raises \<open>re.error\<close>; nothing catches that exception.
\<close>

fun compile_patterns :: "(string \<Rightarrow> pattern option) \<Rightarrow> string list \<Rightarrow> error + pattern list" where
  "compile_patterns re_compile [] = Inr []"
| "compile_patterns re_compile (p # ps) =
     (case re_compile p of
        None \<Rightarrow> Inl (PatternError p)
      | Some c \<Rightarrow>
          (case compile_patterns re_compile ps of
             Inl e \<Rightarrow> Inl e
           | Inr cs \<Rightarrow> Inr (c # cs)))"

text \<open>
  The set that the comprehension builds from the compiled patterns: \<open>re.compile\<close> gives
  equal pattern objects for equal strings, so the set holds one compiled pattern for each
  distinct string. The argument pairs each string with its compiled pattern.
\<close>

fun set_of_compiled :: "(string \<times> pattern) list \<Rightarrow> pattern list" where
  "set_of_compiled [] = []"
| "set_of_compiled ((p, c) # rest) =
     c # set_of_compiled (filter (\<lambda>(q, d). q \<noteq> p) rest)"

text \<open>
  \<open>Group.__init__\<close>. \<open>validate_name\<close> (of \<open>bundlewrap.utils.text\<close>) and \<open>re_compile\<close> are
  parameters; \<open>obj\<close> is the identity of the object being initialised.
\<close>

definition Group_init ::
  "(string \<Rightarrow> bool) \<Rightarrow> (string \<Rightarrow> pattern option) \<Rightarrow> nat \<Rightarrow> string \<Rightarrow> infodict option
     \<Rightarrow> error + group" where
  "Group_init validate_name re_compile obj group_name infodict_arg =
     (let infodict = (case infodict_arg of None \<Rightarrow> [] | Some d \<Rightarrow> d) in
      if \<not> validate_name group_name then Inl (InvalidGroupName group_name)
      else if \<not> validate_dict infodict GROUP_ATTR_TYPES then Inl (ValidationError group_name)
      else
        (case compile_patterns re_compile (get_strings infodict ''subgroup_patterns'') of
           Inl e \<Rightarrow> Inl e
         | Inr subgroup_pats \<Rightarrow>
             (case compile_patterns re_compile (get_strings infodict ''member_patterns'') of
                Inl e \<Rightarrow> Inl e
              | Inr member_pats \<Rightarrow>
                  Inr \<lparr> oid = obj,
                        name = group_name,
                        bundle_names = get_strings infodict ''bundles'',
                        immediate_subgroup_names = get_strings infodict ''subgroups'',
                        immediate_subgroup_patterns =
                          set_of_compiled
                            (zip (get_strings infodict ''subgroup_patterns'') subgroup_pats),
                        metadata = get_dict infodict ''metadata'',
                        member_patterns =
                          set_of_compiled
                            (zip (get_strings infodict ''member_patterns'') member_pats),
                        attrs = map (\<lambda>(attr, d). (attr, map_of infodict attr)) GROUP_ATTR_DEFAULTS \<rparr>)))"

text \<open>\<open>Group.__lt__\<close>, and the default \<open>==\<close> of objects.\<close>

definition group_lt :: "group \<Rightarrow> group \<Rightarrow> bool" where
  "group_lt self other = (name self < name other)"

definition group_eq :: "group \<Rightarrow> group \<Rightarrow> bool" where
  "group_eq self other = (oid self = oid other)"

text \<open>A node, with the three operations the group code calls on it.\<close>

record node =
  node_name :: string
  in_group :: "string \<Rightarrow> bool"
  node_hash :: string
  node_metadata_hash :: string

text \<open>
  Modelled from the spec: the repository (\<open>bundlewrap.repo\<close>, not part of
  \<open>group.py\<close>). It supplies the sequence of all groups, the sequence of all nodes and
  \<open>get_group(name)\<close>, which fails with \<open>NoSuchGroup\<close> when no group has that name.
\<close>

record repository =
  repo_groups :: "group list"
  repo_nodes :: "node list"

definition get_group :: "repository \<Rightarrow> string \<Rightarrow> error + group" where
  "get_group repo group_name =
     (case find (\<lambda>g. name g = group_name) (repo_groups repo) of
        None \<Rightarrow> Inl (NoSuchGroup group_name)
      | Some g \<Rightarrow> Inr g)"

text \<open>Group names and object identities are unique within a repository.\<close>

definition repo_ok :: "repository \<Rightarrow> bool" where
  "repo_ok repo \<longleftrightarrow>
     distinct (map name (repo_groups repo)) \<and> distinct (map oid (repo_groups repo))"

text \<open>
  The order in which Python iterates over \<open>set(xs)\<close> is not fixed by the language; it is a
  parameter \<open>so\<close> of the functions that build a set from a list. All that is known about
  it is that it enumerates the elements of the list once each.
\<close>

type_synonym set_order = "string list \<Rightarrow> string list"

definition set_order_ok :: "set_order \<Rightarrow> bool" where
  "set_order_ok so \<longleftrightarrow> (\<forall>xs. set (so xs) = set xs \<and> distinct (so xs))"

section \<open>Subgroups\<close>

text \<open>\<open>Group._subgroup_names_from_patterns\<close>: the names are yielded pattern by pattern.\<close>

definition subgroup_names_from_patterns :: "repository \<Rightarrow> group \<Rightarrow> string list" where
  "subgroup_names_from_patterns repo self =
     concat (map (\<lambda>pattern.
                    map name (filter (\<lambda>g. pattern (name g) \<and> \<not> group_eq g self)
                                     (repo_groups repo)))
                 (immediate_subgroup_patterns self))"

text \<open>The set that \<open>_check_subgroup_names\<close> and \<open>immediate_subgroups\<close> iterate over.\<close>

definition subgroup_candidates :: "set_order \<Rightarrow> repository \<Rightarrow> group \<Rightarrow> string list" where
  "subgroup_candidates so repo self =
     so (immediate_subgroup_names self @ subgroup_names_from_patterns repo self)"

text \<open>
  The termination measure of the traversal: twice the number of names (of the repository,
  and of the group itself) that are not on the path yet, plus one when the group is on the
  path already.
\<close>

definition path_measure :: "repository \<Rightarrow> group \<Rightarrow> string list \<Rightarrow> nat" where
  "path_measure repo self visited_names =
     2 * card ((name ` set (repo_groups repo) \<union> {name self}) - set visited_names)
       + (if name self \<in> set visited_names then 1 else 0)"

lemma get_group_Inr:
  "get_group repo n = Inr g \<Longrightarrow> g \<in> set (repo_groups repo) \<and> name g = n"
  by (auto simp: get_group_def find_Some_iff split: option.splits)

lemma path_measure_decreases:
  assumes "n \<notin> set visited_names" and "get_group repo n = Inr sub"
  shows "path_measure repo sub (visited_names @ [name self]) < path_measure repo self visited_names"
proof -
  let ?N = "name ` set (repo_groups repo)"
  from assms(2) have sub: "sub \<in> set (repo_groups repo)" "name sub = n"
    using get_group_Inr by blast+
  then have nN: "n \<in> ?N" by auto
  then have eq: "(?N \<union> {name sub}) - set (visited_names @ [name self])
                 = (?N - set visited_names) - {name self}"
    using sub by auto
  show ?thesis
  proof (cases "name self \<in> set visited_names")
    case True
    then have "(?N \<union> {name self}) - set visited_names = ?N - set visited_names"
      and "(?N - set visited_names) - {name self} = ?N - set visited_names"
      by auto
    moreover have "name sub \<notin> set (visited_names @ [name self])"
      using True assms(1) sub by auto
    ultimately show ?thesis
      using True unfolding path_measure_def eq by simp
  next
    case False
    have fin: "finite ((?N \<union> {name self}) - set visited_names)" by simp
    have mem: "name self \<in> (?N \<union> {name self}) - set visited_names" using False by simp
    have "(?N - set visited_names) - {name self}
          = ((?N \<union> {name self}) - set visited_names) - {name self}" by auto
    then have "card ((?N - set visited_names) - {name self})
          = card ((?N \<union> {name self}) - set visited_names) - 1"
      using fin mem by simp
    moreover have "0 < card ((?N \<union> {name self}) - set visited_names)"
      using fin mem card_gt_0_iff by blast
    ultimately have "2 * card ((?N - set visited_names) - {name self}) + 1
          < 2 * card ((?N \<union> {name self}) - set visited_names)"
      by arith
    moreover have "path_measure repo sub (visited_names @ [name self])
          \<le> 2 * card ((?N - set visited_names) - {name self}) + 1"
      unfolding path_measure_def eq by simp
    moreover have "path_measure repo self visited_names
          = 2 * card ((?N \<union> {name self}) - set visited_names)"
      using False unfolding path_measure_def by simp
    ultimately show ?thesis by linarith
  qed
qed

text \<open>
  \<open>Group._check_subgroup_names\<close>. The generator is consumed by \<open>set(...)\<close>, so its result is
  either the exception it raises or the list of the names it yields. \<open>check_candidates\<close>
  is the \<open>for\<close> loop over the candidate names that are left.
\<close>

function check_subgroup_names ::
    "set_order \<Rightarrow> repository \<Rightarrow> group \<Rightarrow> string list \<Rightarrow> error + string list"
  and check_candidates ::
    "set_order \<Rightarrow> repository \<Rightarrow> group \<Rightarrow> string list \<Rightarrow> string list \<Rightarrow> error + string list"
where
  "check_subgroup_names so repo self visited_names =
     (case check_candidates so repo self visited_names (subgroup_candidates so repo self) of
        Inl e \<Rightarrow> Inl e
      | Inr yielded \<Rightarrow>
          Inr (yielded @ (if name self \<notin> set visited_names then [name self] else [])))"
| "check_candidates so repo self visited_names [] = Inr []"
| "check_candidates so repo self visited_names (n # rest) =
     (if n \<notin> set visited_names then
        (case get_group repo n of
           Inl e \<Rightarrow> Inl (NoSuchSubgroup (name self) n)
         | Inr sub \<Rightarrow>
             (case check_subgroup_names so repo sub (visited_names @ [name self]) of
                Inl e \<Rightarrow> Inl e
              | Inr yielded \<Rightarrow>
                  (case check_candidates so repo self visited_names rest of
                     Inl e \<Rightarrow> Inl e
                   | Inr later \<Rightarrow> Inr (yielded @ later))))
      else Inl (SubgroupLoop n (build_error_chain n (name self) visited_names)))"
  by pat_completeness auto
termination
proof (relation "measures
    [\<lambda>x. case x of Inl (so, repo, self, v) \<Rightarrow> path_measure repo self v
               | Inr (so, repo, self, v, ns) \<Rightarrow> path_measure repo self v,
     \<lambda>x. case x of Inl _ \<Rightarrow> 1 | Inr _ \<Rightarrow> 0,
     \<lambda>x. case x of Inl _ \<Rightarrow> 0 | Inr (so, repo, self, v, ns) \<Rightarrow> length ns]", goal_cases)
  case 1
  show ?case by simp
next
  case 2
  show ?case by simp
next
  case (3 so repo self visited_names n rest sub)
  then show ?case by (simp add: path_measure_decreases)
next
  case 4
  then show ?case by simp
qed

text \<open>The lookups of \<open>Group.subgroups\<close>, one \<open>repo.get_group\<close> for each collected name.\<close>

fun get_groups :: "repository \<Rightarrow> string list \<Rightarrow> error + group list" where
  "get_groups repo [] = Inr []"
| "get_groups repo (n # ns) =
     (case get_group repo n of
        Inl e \<Rightarrow> Inl e
      | Inr g \<Rightarrow> (case get_groups repo ns of Inl e \<Rightarrow> Inl e | Inr gs \<Rightarrow> Inr (g # gs)))"

text \<open>\<open>Group.subgroups\<close>: the traversal starts with the group's own name on the path.\<close>

definition subgroups :: "set_order \<Rightarrow> repository \<Rightarrow> group \<Rightarrow> error + group list" where
  "subgroups so repo self =
     (case check_subgroup_names so repo self [name self] of
        Inl e \<Rightarrow> Inl e
      | Inr yielded \<Rightarrow> get_groups repo (so yielded))"

text \<open>
  The same traversal with a bound on the depth of the recursion: \<open>depth\<close> is the number of
  nested calls of \<open>_check_subgroup_names\<close> that may still be opened, and \<open>None\<close> is the
  answer when a call would be needed and none is left.
\<close>

fun check_subgroup_names_depth ::
    "nat \<Rightarrow> set_order \<Rightarrow> repository \<Rightarrow> group \<Rightarrow> string list \<Rightarrow> (error + string list) option"
  and check_candidates_depth ::
    "nat \<Rightarrow> set_order \<Rightarrow> repository \<Rightarrow> group \<Rightarrow> string list \<Rightarrow> string list
       \<Rightarrow> (error + string list) option"
where
  "check_subgroup_names_depth 0 so repo self visited_names = None"
| "check_subgroup_names_depth (Suc depth) so repo self visited_names =
     (case check_candidates_depth depth so repo self visited_names
             (subgroup_candidates so repo self) of
        None \<Rightarrow> None
      | Some (Inl e) \<Rightarrow> Some (Inl e)
      | Some (Inr yielded) \<Rightarrow>
          Some (Inr (yielded @ (if name self \<notin> set visited_names then [name self] else []))))"
| "check_candidates_depth depth so repo self visited_names [] = Some (Inr [])"
| "check_candidates_depth depth so repo self visited_names (n # rest) =
     (if n \<notin> set visited_names then
        (case get_group repo n of
           Inl e \<Rightarrow> Some (Inl (NoSuchSubgroup (name self) n))
         | Inr sub \<Rightarrow>
             (case check_subgroup_names_depth depth so repo sub (visited_names @ [name self]) of
                None \<Rightarrow> None
              | Some (Inl e) \<Rightarrow> Some (Inl e)
              | Some (Inr yielded) \<Rightarrow>
                  (case check_candidates_depth depth so repo self visited_names rest of
                     None \<Rightarrow> None
                   | Some (Inl e) \<Rightarrow> Some (Inl e)
                   | Some (Inr later) \<Rightarrow> Some (Inr (yielded @ later)))))
      else Some (Inl (SubgroupLoop n (build_error_chain n (name self) visited_names))))"

section \<open>Nodes and hashes of a group\<close>

text \<open>\<open>Group.nodes\<close>, and \<open>names\<close> of \<open>bundlewrap.utils\<close>, which yields the name of each object.\<close>

definition nodes :: "repository \<Rightarrow> group \<Rightarrow> node list" where
  "nodes repo self = filter (\<lambda>node. in_group node (name self)) (repo_nodes repo)"

definition names :: "node list \<Rightarrow> string list" where
  "names objs = map node_name objs"


text \<open>What the group code passes to \<open>hash_statedict\<close>: a list of names or a dictionary.\<close>

datatype statedict = NameList "string list" | NameDict "(string \<times> string) list"

text \<open>
  Modelled from the spec: \<open>hash_statedict\<close> of \<open>bundlewrap.utils.dicts\<close>, which is not part
  of \<open>group.py\<close>. It digests a canonical, key-sorted serialization of its argument;
  the digest function applied to the serialization is the parameter \<open>digest\<close>.
\<close>

fun canonical :: "statedict \<Rightarrow> statedict" where
  "canonical (NameList xs) = NameList xs"
| "canonical (NameDict d) = NameDict (sort_key fst d)"

definition hash_statedict :: "(statedict \<Rightarrow> 'd) \<Rightarrow> statedict \<Rightarrow> 'd" where
  "hash_statedict digest sdict = digest (canonical sdict)"

text \<open>\<open>Group.group_membership_hash\<close> and \<open>Group.hash\<close>.\<close>

definition group_membership_hash :: "(statedict \<Rightarrow> 'd) \<Rightarrow> repository \<Rightarrow> group \<Rightarrow> 'd" where
  "group_membership_hash digest repo self =
     hash_statedict digest (NameList (sort (names (nodes repo self))))"


section \<open>Example repositories\<close>

text \<open>A group with the given identity, name, subgroup names and subgroup patterns.\<close>

definition mk_group :: "nat \<Rightarrow> string \<Rightarrow> string list \<Rightarrow> pattern list \<Rightarrow> group" where
  "mk_group i n subs pats =
     \<lparr> oid = i, name = n, bundle_names = [], immediate_subgroup_names = subs,
       immediate_subgroup_patterns = pats, metadata = [], member_patterns = [], attrs = [] \<rparr>"

lemma mk_group_simps:
  "oid (mk_group i n subs pats) = i"
  "name (mk_group i n subs pats) = n"
  "immediate_subgroup_names (mk_group i n subs pats) = subs"
  "immediate_subgroup_patterns (mk_group i n subs pats) = pats"
  by (simp_all add: mk_group_def)

text \<open>
  The group \<open>web\<close> has one subgroup pattern, which matches the names that start with
  \<open>db-\<close> and also those that start with \<open>web\<close>, its own name among them.
\<close>

definition db_pattern :: pattern where
  "db_pattern n = (take 3 n = ''db-'' \<or> take 3 n = ''web'')"

definition web :: group where "web = mk_group 0 ''web'' [] [db_pattern]"
definition db_primary :: group where "db_primary = mk_group 1 ''db-primary'' [] []"
definition db_replica :: group where "db_replica = mk_group 2 ''db-replica'' [] []"
definition cache :: group where "cache = mk_group 3 ''cache'' [] []"

definition web_repo :: repository where
  "web_repo = \<lparr> repo_groups = [web, db_primary, db_replica, cache], repo_nodes = [] \<rparr>"

lemmas web_defs = web_repo_def web_def db_primary_def db_replica_def cache_def db_pattern_def

section \<open>Pattern-derived subgroups\<close>

lemma repo_ok_name_eq:
  "repo_ok repo \<Longrightarrow> g \<in> set (repo_groups repo) \<Longrightarrow> h \<in> set (repo_groups repo) \<Longrightarrow>
     name g = name h \<Longrightarrow> g = h"
  by (auto simp: repo_ok_def distinct_map inj_on_def)

lemma repo_ok_oid_eq:
  "repo_ok repo \<Longrightarrow> g \<in> set (repo_groups repo) \<Longrightarrow> h \<in> set (repo_groups repo) \<Longrightarrow>
     oid g = oid h \<Longrightarrow> g = h"
  by (auto simp: repo_ok_def distinct_map inj_on_def)

lemma set_subgroup_names_from_patterns:
  "set (subgroup_names_from_patterns repo self) =
     {name g | g. g \<in> set (repo_groups repo) \<and> \<not> group_eq g self
        \<and> (\<exists>p \<in> set (immediate_subgroup_patterns self). p (name g))}"
  by (auto simp: subgroup_names_from_patterns_def)

text \<open>
  C4. For a group of a repository (names and objects unique), the pattern-derived
  subgroup names are exactly the names of the repository's groups other than the group
  itself whose name matches at least one of the group's subgroup patterns; the group's own
  name is never among them, whether or not it matches one of its own patterns.
\<close>

theorem pattern_subgroups_exclude_self:
  assumes "repo_ok repo" and "self \<in> set (repo_groups repo)"
  shows "set (subgroup_names_from_patterns repo self) =
           {name g | g. g \<in> set (repo_groups repo) \<and> g \<noteq> self
              \<and> (\<exists>p \<in> set (immediate_subgroup_patterns self). p (name g))}
         \<and> name self \<notin> set (subgroup_names_from_patterns repo self)"
proof -
  have ne: "\<not> group_eq g self \<longleftrightarrow> g \<noteq> self" if "g \<in> set (repo_groups repo)" for g
    using repo_ok_oid_eq [OF assms(1) that assms(2)] by (auto simp: group_eq_def)
  have "set (subgroup_names_from_patterns repo self) =
           {name g | g. g \<in> set (repo_groups repo) \<and> g \<noteq> self
              \<and> (\<exists>p \<in> set (immediate_subgroup_patterns self). p (name g))}"
    unfolding set_subgroup_names_from_patterns using ne by blast
  moreover have "name self \<notin> {name g | g. g \<in> set (repo_groups repo) \<and> g \<noteq> self
              \<and> (\<exists>p \<in> set (immediate_subgroup_patterns self). p (name g))}"
    using repo_ok_name_eq [OF assms(1) _ assms(2)] by auto
  ultimately show ?thesis by simp
qed

theorem pattern_subgroups_exclude_self_witness:
  "repo_ok web_repo \<and> web \<in> set (repo_groups web_repo) \<and> db_pattern (name web)
   \<and> set (subgroup_names_from_patterns web_repo web) = {''db-primary'', ''db-replica''}
   \<and> name web \<notin> set (subgroup_names_from_patterns web_repo web)"
proof -
  have ok: "repo_ok web_repo"
    by (simp add: repo_ok_def web_defs mk_group_simps)
  have mem: "web \<in> set (repo_groups web_repo)"
    by (simp add: web_repo_def)
  have "set (subgroup_names_from_patterns web_repo web) = {''db-primary'', ''db-replica''}"
    by (simp add: subgroup_names_from_patterns_def group_eq_def web_defs mk_group_simps)
  moreover have "db_pattern (name web)"
    by (simp add: web_defs mk_group_simps)
  moreover have "name web \<notin> set (subgroup_names_from_patterns web_repo web)"
    using pattern_subgroups_exclude_self [OF ok mem] by (rule conjunct2)
  ultimately show ?thesis
    using ok mem by blast
qed

section \<open>Ordering and equality of groups\<close>

text \<open>Two group objects with the same name, as two calls of the constructor make them.\<close>

definition twin_a :: group where "twin_a = mk_group 1 ''a'' [] []"
definition twin_b :: group where "twin_b = mk_group 2 ''a'' [] []"

text \<open>
  Two distinct group objects with the same name are not equal: \<open>==\<close> on groups is the
  identity of objects.
\<close>

theorem group_eq_not_by_name_counterexample:
  "name twin_a = name twin_b \<and> \<not> group_eq twin_a twin_b"
  by (simp add: twin_a_def twin_b_def group_eq_def mk_group_simps)

text \<open>
  C9 (amended). For every pair of groups, \<open>G1 < G2\<close> holds exactly when
  \<open>G1.name < G2.name\<close> in the lexicographic order of the name strings. Equality of groups
  is the identity of objects; for two groups of one repository, where names and objects are
  unique, it holds exactly when the names are equal.
\<close>

theorem group_order_and_equality:
  "(group_lt g1 g2 \<longleftrightarrow> name g1 < name g2)
   \<and> (group_lt g1 g2 \<longleftrightarrow> (name g1, name g2) \<in> lexord {(c, d). c < d})
   \<and> (group_eq g1 g2 \<longleftrightarrow> oid g1 = oid g2)
   \<and> (repo_ok repo \<and> g1 \<in> set (repo_groups repo) \<and> g2 \<in> set (repo_groups repo) \<longrightarrow>
        (group_eq g1 g2 \<longleftrightarrow> name g1 = name g2))"
proof (intro conjI impI)
  show "group_lt g1 g2 \<longleftrightarrow> name g1 < name g2"
    by (simp add: group_lt_def)
  show "group_lt g1 g2 \<longleftrightarrow> (name g1, name g2) \<in> lexord {(c, d). c < d}"
    by (simp add: group_lt_def list_less_def)
  show "group_eq g1 g2 \<longleftrightarrow> oid g1 = oid g2"
    by (simp add: group_eq_def)
next
  assume "repo_ok repo \<and> g1 \<in> set (repo_groups repo) \<and> g2 \<in> set (repo_groups repo)"
  then have ok: "repo_ok repo" and m1: "g1 \<in> set (repo_groups repo)"
    and m2: "g2 \<in> set (repo_groups repo)" by simp_all
  show "group_eq g1 g2 \<longleftrightarrow> name g1 = name g2"
    using repo_ok_oid_eq [OF ok m1 m2] repo_ok_name_eq [OF ok m1 m2]
    by (auto simp: group_eq_def)
qed

theorem group_order_and_equality_witness:
  "repo_ok web_repo \<and> cache \<in> set (repo_groups web_repo) \<and> web \<in> set (repo_groups web_repo)
   \<and> group_lt cache web \<and> \<not> group_lt web cache \<and> \<not> group_eq cache web
   \<and> \<not> group_lt twin_a twin_b \<and> \<not> group_lt twin_b twin_a \<and> \<not> group_eq twin_a twin_b"
proof -
  have ok: "repo_ok web_repo"
    by (simp add: repo_ok_def web_defs mk_group_simps)
  have m1: "cache \<in> set (repo_groups web_repo)" and m2: "web \<in> set (repo_groups web_repo)"
    by (simp_all add: web_repo_def)
  have lt: "name cache < name web" and nlt: "\<not> name web < name cache" and ne: "name cache \<noteq> name web"
    by (simp_all add: web_defs mk_group_simps)
  from group_order_and_equality [of cache web web_repo] ok m1 m2 lt ne
  have "group_lt cache web" and "\<not> group_eq cache web" by blast+
  moreover from group_order_and_equality [of web cache web_repo] nlt
  have "\<not> group_lt web cache" by blast
  moreover have "\<not> name twin_a < name twin_b" and "\<not> name twin_b < name twin_a"
    and "oid twin_a \<noteq> oid twin_b"
    by (simp_all add: twin_a_def twin_b_def mk_group_simps)
  with group_order_and_equality [of twin_a twin_b web_repo]
    group_order_and_equality [of twin_b twin_a web_repo]
  have "\<not> group_lt twin_a twin_b" and "\<not> group_lt twin_b twin_a"
    and "\<not> group_eq twin_a twin_b" by blast+
  ultimately show ?thesis using ok m1 m2 by blast
qed

section \<open>Construction of a group\<close>

lemma compile_patterns_all:
  "\<forall>p \<in> set ps. re_compile p \<noteq> None \<Longrightarrow>
     compile_patterns re_compile ps = Inr (map (\<lambda>p. the (re_compile p)) ps)"
  by (induction ps) auto

lemma compile_patterns_first_invalid:
  "\<exists>p \<in> set ps. re_compile p = None \<Longrightarrow>
     compile_patterns re_compile ps
       = Inl (PatternError (hd (filter (\<lambda>p. re_compile p = None) ps)))"
proof (induction ps)
  case Nil
  then show ?case by simp
next
  case (Cons p ps)
  show ?case
  proof (cases "re_compile p")
    case None
    then show ?thesis by simp
  next
    case (Some c)
    with Cons.prems have "\<exists>q \<in> set ps. re_compile q = None" by auto
    from Cons.IH [OF this] Some show ?thesis by simp
  qed
qed

text \<open>The pattern strings of an attribute dictionary, in the order in which they are compiled.\<close>

definition all_patterns :: "infodict \<Rightarrow> string list" where
  "all_patterns infodict =
     get_strings infodict ''subgroup_patterns'' @ get_strings infodict ''member_patterns''"

text \<open>
  A name check, and a stand-in for \<open>re.compile\<close> that rejects the pattern \<open>[\<close> (an
  unterminated character set) and compiles any other string to a prefix test.
\<close>

definition example_validate_name :: "string \<Rightarrow> bool" where
  "example_validate_name n = (n \<noteq> [])"

definition example_compile :: "string \<Rightarrow> pattern option" where
  "example_compile p = (if p = ''['' then None else Some (\<lambda>n. take (length p) n = p))"

definition bad_infodict :: infodict where
  "bad_infodict = [(''subgroups'', Strings [''db'']), (''member_patterns'', Strings [''web'', ''[''])]"

text \<open>
  An invalid member pattern makes the constructor fail with the \<open>re.error\<close> of the pattern,
  which is not a \<open>RepositoryError\<close> and does not name the group.
\<close>

theorem invalid_pattern_counterexample:
  "''['' \<in> set (all_patterns bad_infodict) \<and> example_compile ''['' = None
   \<and> Group_init example_validate_name example_compile 7 ''web'' (Some bad_infodict)
       = Inl (PatternError ''['')
   \<and> \<not> is_repository_error (PatternError ''['')"
  by (simp add: Group_init_def all_patterns_def bad_infodict_def example_compile_def
        example_validate_name_def get_strings_def validate_dict_def GROUP_ATTR_TYPES_def)

text \<open>
  C8 (amended). For a valid group name and an attribute dictionary that passes validation,
  if some string in \<open>subgroup_patterns\<close> or \<open>member_patterns\<close> is not a valid pattern,
  the construction fails with the \<open>re.error\<close> of the first such string (subgroup patterns
  first): the error identifies the pattern, not the group, and is not a \<open>RepositoryError\<close>.
\<close>

theorem invalid_pattern_raises_re_error:
  assumes "validate_name group_name"
    and "validate_dict infodict GROUP_ATTR_TYPES"
    and "\<exists>p \<in> set (all_patterns infodict). re_compile p = None"
  shows "Group_init validate_name re_compile obj group_name (Some infodict)
           = Inl (PatternError (hd (filter (\<lambda>p. re_compile p = None) (all_patterns infodict))))
       \<and> hd (filter (\<lambda>p. re_compile p = None) (all_patterns infodict)) \<in> set (all_patterns infodict)
       \<and> re_compile (hd (filter (\<lambda>p. re_compile p = None) (all_patterns infodict))) = None
       \<and> \<not> is_repository_error
             (PatternError (hd (filter (\<lambda>p. re_compile p = None) (all_patterns infodict))))"
proof -
  let ?sp = "get_strings infodict ''subgroup_patterns''"
  let ?mp = "get_strings infodict ''member_patterns''"
  let ?bad = "\<lambda>p. re_compile p = None"
  have ne: "filter ?bad (all_patterns infodict) \<noteq> []"
    using assms(3) by (simp add: filter_empty_conv)
  then have "hd (filter ?bad (all_patterns infodict)) \<in> set (filter ?bad (all_patterns infodict))"
    by (rule hd_in_set)
  then have h: "hd (filter ?bad (all_patterns infodict)) \<in> set (all_patterns infodict)"
    "re_compile (hd (filter ?bad (all_patterns infodict))) = None"
    by auto
  have "Group_init validate_name re_compile obj group_name (Some infodict)
           = Inl (PatternError (hd (filter ?bad (all_patterns infodict))))"
  proof (cases "\<exists>p \<in> set ?sp. re_compile p = None")
    case True
    then have "filter ?bad ?sp \<noteq> []" by (simp add: filter_empty_conv)
    then have "hd (filter ?bad (all_patterns infodict)) = hd (filter ?bad ?sp)"
      by (simp add: all_patterns_def)
    with compile_patterns_first_invalid [OF True] assms(1,2) show ?thesis
      by (simp add: Group_init_def)
  next
    case False
    then have f: "filter ?bad ?sp = []" by (simp add: filter_empty_conv)
    from False have ok: "\<forall>p \<in> set ?sp. re_compile p \<noteq> None" by simp
    from False assms(3) have bad: "\<exists>p \<in> set ?mp. re_compile p = None"
      by (auto simp: all_patterns_def)
    have "hd (filter ?bad (all_patterns infodict)) = hd (filter ?bad ?mp)"
      using f by (simp add: all_patterns_def)
    with compile_patterns_all [OF ok] compile_patterns_first_invalid [OF bad] assms(1,2)
    show ?thesis
      by (simp add: Group_init_def)
  qed
  with h show ?thesis by simp
qed

theorem invalid_pattern_raises_re_error_witness:
  "example_validate_name ''web'' \<and> validate_dict bad_infodict GROUP_ATTR_TYPES
   \<and> ''['' \<in> set (all_patterns bad_infodict) \<and> example_compile ''['' = None
   \<and> (\<exists>p. Group_init example_validate_name example_compile 7 ''web'' (Some bad_infodict)
       = Inl (PatternError p))"
proof -
  have a: "example_validate_name ''web''" by (simp add: example_validate_name_def)
  have b: "validate_dict bad_infodict GROUP_ATTR_TYPES"
    by (simp add: validate_dict_def bad_infodict_def GROUP_ATTR_TYPES_def)
  have c1: "''['' \<in> set (all_patterns bad_infodict)"
    by (simp add: all_patterns_def bad_infodict_def get_strings_def)
  have c2: "example_compile ''['' = None" by (simp add: example_compile_def)
  from c1 c2 have c: "\<exists>p \<in> set (all_patterns bad_infodict). example_compile p = None"
    by blast
  from invalid_pattern_raises_re_error
         [where validate_name = example_validate_name and re_compile = example_compile
            and obj = 7, OF a b c]
  have "\<exists>p. Group_init example_validate_name example_compile 7 ''web'' (Some bad_infodict)
       = Inl (PatternError p)" by blast
  with a b c1 c2 show ?thesis by blast
qed

section \<open>The subgroup relation\<close>

text \<open>
  The subgroup relation on group names: an edge leads from the name of a group of the
  repository to each of its explicit and pattern-derived subgroup names.
\<close>

definition subgroup_edges :: "repository \<Rightarrow> (string \<times> string) set" where
  "subgroup_edges repo =
     {(a, b). \<exists>g \<in> set (repo_groups repo). name g = a \<and>
        b \<in> set (immediate_subgroup_names g) \<union> set (subgroup_names_from_patterns repo g)}"

text \<open>Every explicit subgroup name is the name of a group of the repository.\<close>

definition subgroups_exist :: "repository \<Rightarrow> bool" where
  "subgroups_exist repo \<longleftrightarrow>
     set (concat (map immediate_subgroup_names (repo_groups repo)))
       \<subseteq> name ` set (repo_groups repo)"

text \<open>
  Every name that can be reached from the name \<open>a\<close> by one or more subgroup edges is the
  name of a group of the repository.
\<close>

definition reachable_subgroups_exist :: "repository \<Rightarrow> string \<Rightarrow> bool" where
  "reachable_subgroups_exist repo a \<longleftrightarrow>
     (subgroup_edges repo)\<^sup>+ `` {a} \<subseteq> name ` set (repo_groups repo)"

lemma set_subgroup_candidates:
  "set_order_ok so \<Longrightarrow>
     set (subgroup_candidates so repo g) =
       set (immediate_subgroup_names g) \<union> set (subgroup_names_from_patterns repo g)"
  by (simp add: subgroup_candidates_def set_order_ok_def)

lemma edges_of_group:
  assumes "set_order_ok so" and "repo_ok repo" and "g \<in> set (repo_groups repo)"
  shows "subgroup_edges repo `` {name g} = set (subgroup_candidates so repo g)"
proof -
  have "h = g" if "h \<in> set (repo_groups repo)" "name h = name g" for h
    using repo_ok_name_eq [OF assms(2) that(1) assms(3) that(2)] .
  then show ?thesis
    unfolding set_subgroup_candidates [OF assms(1)] subgroup_edges_def
    using assms(3) by blast
qed

lemma candidate_edge:
  assumes "set_order_ok so" and "repo_ok repo" and "g \<in> set (repo_groups repo)"
    and "n \<in> set (subgroup_candidates so repo g)"
  shows "(name g, n) \<in> subgroup_edges repo"
  using edges_of_group [OF assms(1-3)] assms(4) by blast

lemma get_group_member:
  assumes "repo_ok repo" and "g \<in> set (repo_groups repo)"
  shows "get_group repo (name g) = Inr g"
proof -
  from assms(2) obtain h where h: "find (\<lambda>x. name x = name g) (repo_groups repo) = Some h"
    by (cases "find (\<lambda>x. name x = name g) (repo_groups repo)") (auto simp: find_None_iff)
  then have "h \<in> set (repo_groups repo)" "name h = name g"
    by (auto simp: find_Some_iff)
  then have "h = g" using repo_ok_name_eq [OF assms(1) _ assms(2)] by blast
  with h show ?thesis by (simp add: get_group_def)
qed

lemma get_group_Inl:
  "get_group repo n = Inl e \<Longrightarrow> n \<notin> name ` set (repo_groups repo)"
  by (auto simp: get_group_def find_None_iff split: option.splits)

lemma edge_target_exists:
  assumes "subgroups_exist repo" and "(a, b) \<in> subgroup_edges repo"
  shows "b \<in> name ` set (repo_groups repo)"
  using assms
  by (auto simp: subgroups_exist_def subgroup_edges_def set_subgroup_names_from_patterns)

lemma trancl_Image_step: "r\<^sup>+ `` A = r\<^sup>* `` (r `` A)"
proof -
  have "r\<^sup>+ = r O r\<^sup>*" by (rule trancl_unfold_left)
  then show ?thesis by (simp add: relcomp_Image)
qed

lemma rtrancl_Image_single: "r\<^sup>* `` {a} = insert a (r\<^sup>+ `` {a})"
  by (auto simp: rtrancl_eq_or_trancl)

section \<open>What the traversal yields\<close>

lemma yielded_names_registered:
  "\<forall>ys. check_subgroup_names so repo self v = Inr ys \<longrightarrow>
     set ys \<subseteq> (if name self \<in> set v then {} else {name self}) \<union> name ` set (repo_groups repo)"
  "\<forall>ys. check_candidates so repo self v ns = Inr ys \<longrightarrow>
     set ys \<subseteq> name ` set (repo_groups repo)"
proof (induction so repo self v and so repo self v ns
        rule: check_subgroup_names_check_candidates.induct)
  case (1 so repo self visited_names)
  then show ?case
    by (auto split: sum.splits if_splits)
next
  case (2 so repo self visited_names)
  show ?case by simp
next
  case (3 so repo self visited_names n rest)
  show ?case
  proof (intro allI impI)
    fix ys
    assume res: "check_candidates so repo self visited_names (n # rest) = Inr ys"
    then have nv: "n \<notin> set visited_names" by (auto split: if_splits)
    from res nv obtain sub where sub: "get_group repo n = Inr sub"
      by (cases "get_group repo n") auto
    from res nv sub obtain ys1 where
      ys1: "check_subgroup_names so repo sub (visited_names @ [name self]) = Inr ys1"
      by (cases "check_subgroup_names so repo sub (visited_names @ [name self])") auto
    from res nv sub ys1 obtain ys2 where
      ys2: "check_candidates so repo self visited_names rest = Inr ys2" and ys: "ys = ys1 @ ys2"
      by (cases "check_candidates so repo self visited_names rest") auto
    from get_group_Inr [OF sub] have "name sub \<in> name ` set (repo_groups repo)" by blast
    with "3.IH"(1) [OF nv sub] ys1 have "set ys1 \<subseteq> name ` set (repo_groups repo)"
      by (auto split: if_splits)
    moreover from "3.IH"(2) [OF nv sub ys1] ys2
    have "set ys2 \<subseteq> name ` set (repo_groups repo)" by blast
    ultimately show "set ys \<subseteq> name ` set (repo_groups repo)" using ys by simp
  qed
qed

lemma check_subgroup_names_Inr:
  assumes "check_subgroup_names so repo self v = Inr ys"
  obtains ys0 where "check_candidates so repo self v (subgroup_candidates so repo self) = Inr ys0"
    and "ys = ys0 @ (if name self \<notin> set v then [name self] else [])"
  using assms
  by (cases "check_candidates so repo self v (subgroup_candidates so repo self)") auto

lemma check_candidates_Cons_Inr:
  assumes "check_candidates so repo self v (n # rest) = Inr ys"
  obtains sub ys1 ys2 where "n \<notin> set v" and "get_group repo n = Inr sub"
    and "check_subgroup_names so repo sub (v @ [name self]) = Inr ys1"
    and "check_candidates so repo self v rest = Inr ys2" and "ys = ys1 @ ys2"
proof -
  from assms have nv: "n \<notin> set v" by (auto split: if_splits)
  from assms nv obtain sub where sub: "get_group repo n = Inr sub"
    by (cases "get_group repo n") auto
  from assms nv sub obtain ys1 where
    ys1: "check_subgroup_names so repo sub (v @ [name self]) = Inr ys1"
    by (cases "check_subgroup_names so repo sub (v @ [name self])") auto
  from assms nv sub ys1 obtain ys2 where
    "check_candidates so repo self v rest = Inr ys2" and "ys = ys1 @ ys2"
    by (cases "check_candidates so repo self v rest") auto
  with nv sub ys1 show ?thesis using that by blast
qed

text \<open>
  When the traversal of a group returns, it has yielded the names that can be reached from
  the group by one or more subgroup edges, and the group's own name unless it was on the
  path.
\<close>

lemma yielded_names_reachable:
  "set_order_ok so \<longrightarrow> repo_ok repo \<longrightarrow> self \<in> set (repo_groups repo) \<longrightarrow>
     (\<forall>ys. check_subgroup_names so repo self v = Inr ys \<longrightarrow>
        set ys = (if name self \<in> set v then {} else {name self})
                   \<union> (subgroup_edges repo)\<^sup>+ `` {name self})"
  "set_order_ok so \<longrightarrow> repo_ok repo \<longrightarrow> self \<in> set (repo_groups repo) \<longrightarrow>
     set ns \<subseteq> set (subgroup_candidates so repo self) \<longrightarrow>
     (\<forall>ys. check_candidates so repo self v ns = Inr ys \<longrightarrow>
        set ys = (subgroup_edges repo)\<^sup>* `` set ns)"
proof (induction so repo self v and so repo self v ns
        rule: check_subgroup_names_check_candidates.induct)
  case (1 so repo self v)
  show ?case
  proof (intro impI allI)
    fix ys
    assume so: "set_order_ok so" and ok: "repo_ok repo" and mem: "self \<in> set (repo_groups repo)"
      and res: "check_subgroup_names so repo self v = Inr ys"
    from res obtain ys0 where
      ys0: "check_candidates so repo self v (subgroup_candidates so repo self) = Inr ys0"
      and ys: "ys = ys0 @ (if name self \<notin> set v then [name self] else [])"
      by (rule check_subgroup_names_Inr)
    from 1 so ok mem ys0
    have "set ys0 = (subgroup_edges repo)\<^sup>* `` set (subgroup_candidates so repo self)"
      by simp
    also have "\<dots> = (subgroup_edges repo)\<^sup>+ `` {name self}"
      unfolding trancl_Image_step [of _ "{name self}"] edges_of_group [OF so ok mem] ..
    finally show "set ys = (if name self \<in> set v then {} else {name self})
                   \<union> (subgroup_edges repo)\<^sup>+ `` {name self}"
      using ys by auto
  qed
next
  case (2 so repo self v)
  show ?case by simp
next
  case (3 so repo self v n rest)
  show ?case
  proof (intro impI allI)
    fix ys
    assume so: "set_order_ok so" and ok: "repo_ok repo" and mem: "self \<in> set (repo_groups repo)"
      and sub: "set (n # rest) \<subseteq> set (subgroup_candidates so repo self)"
      and res: "check_candidates so repo self v (n # rest) = Inr ys"
    from res obtain sub ys1 ys2 where nv: "n \<notin> set v" and g: "get_group repo n = Inr sub"
      and ys1: "check_subgroup_names so repo sub (v @ [name self]) = Inr ys1"
      and ys2: "check_candidates so repo self v rest = Inr ys2" and ys: "ys = ys1 @ ys2"
      by (rule check_candidates_Cons_Inr)
    from get_group_Inr [OF g] have submem: "sub \<in> set (repo_groups repo)" and nm: "name sub = n"
      by simp_all
    from sub have edge: "(name self, n) \<in> subgroup_edges repo"
      using candidate_edge [OF so ok mem] by simp
    from "3.IH"(1) [OF nv g] so ok submem ys1
    have s1: "set ys1 = (if n \<in> set (v @ [name self]) then {} else {n})
                   \<union> (subgroup_edges repo)\<^sup>+ `` {n}"
      using nm by simp
    have "set ys1 = (subgroup_edges repo)\<^sup>* `` {n}"
    proof (cases "n = name self")
      case True
      with edge have "n \<in> (subgroup_edges repo)\<^sup>+ `` {n}" by auto
      with s1 show ?thesis by (auto simp: rtrancl_Image_single)
    next
      case False
      with s1 nv show ?thesis by (auto simp: rtrancl_Image_single)
    qed
    moreover from "3.IH"(2) [OF nv g ys1] so ok mem sub ys2
    have "set ys2 = (subgroup_edges repo)\<^sup>* `` set rest" by simp
    ultimately show "set ys = (subgroup_edges repo)\<^sup>* `` set (n # rest)"
      using ys by auto
  qed
qed

text \<open>
  When the traversal of a group returns, no name that can be reached from the group is on
  the path, and no name that can be reached from it lies on a cycle.
\<close>

lemma return_excludes_cycle:
  "set_order_ok so \<longrightarrow> repo_ok repo \<longrightarrow> self \<in> set (repo_groups repo) \<longrightarrow>
     (\<forall>ys. check_subgroup_names so repo self v = Inr ys \<longrightarrow>
        (subgroup_edges repo)\<^sup>+ `` {name self} \<inter> set v = {}
        \<and> (\<forall>x \<in> (subgroup_edges repo)\<^sup>* `` {name self}. (x, x) \<notin> (subgroup_edges repo)\<^sup>+))"
  "set_order_ok so \<longrightarrow> repo_ok repo \<longrightarrow> self \<in> set (repo_groups repo) \<longrightarrow>
     set ns \<subseteq> set (subgroup_candidates so repo self) \<longrightarrow>
     (\<forall>ys. check_candidates so repo self v ns = Inr ys \<longrightarrow>
        (subgroup_edges repo)\<^sup>* `` set ns \<inter> (set v \<union> {name self}) = {}
        \<and> (\<forall>x \<in> (subgroup_edges repo)\<^sup>* `` set ns. (x, x) \<notin> (subgroup_edges repo)\<^sup>+))"
proof (induction so repo self v and so repo self v ns
        rule: check_subgroup_names_check_candidates.induct)
  case (1 so repo self v)
  show ?case
  proof (intro impI allI)
    fix ys
    let ?E = "subgroup_edges repo"
    assume so: "set_order_ok so" and ok: "repo_ok repo" and mem: "self \<in> set (repo_groups repo)"
      and res: "check_subgroup_names so repo self v = Inr ys"
    from res obtain ys0 where
      ys0: "check_candidates so repo self v (subgroup_candidates so repo self) = Inr ys0"
      by (rule check_subgroup_names_Inr)
    have eq: "?E\<^sup>* `` set (subgroup_candidates so repo self) = ?E\<^sup>+ `` {name self}"
      unfolding trancl_Image_step [of _ "{name self}"] edges_of_group [OF so ok mem] ..
    from 1 so ok mem ys0
    have a: "?E\<^sup>+ `` {name self} \<inter> (set v \<union> {name self}) = {}"
      and b: "\<forall>x \<in> ?E\<^sup>+ `` {name self}. (x, x) \<notin> ?E\<^sup>+"
      unfolding eq [symmetric] by simp_all
    from a have "(name self, name self) \<notin> ?E\<^sup>+" by blast
    with b have "\<forall>x \<in> ?E\<^sup>* `` {name self}. (x, x) \<notin> ?E\<^sup>+"
      by (auto simp: rtrancl_Image_single)
    with a show "?E\<^sup>+ `` {name self} \<inter> set v = {}
        \<and> (\<forall>x \<in> ?E\<^sup>* `` {name self}. (x, x) \<notin> ?E\<^sup>+)"
      by blast
  qed
next
  case (2 so repo self v)
  show ?case by simp
next
  case (3 so repo self v n rest)
  show ?case
  proof (intro impI allI)
    fix ys
    let ?E = "subgroup_edges repo"
    assume so: "set_order_ok so" and ok: "repo_ok repo" and mem: "self \<in> set (repo_groups repo)"
      and sub: "set (n # rest) \<subseteq> set (subgroup_candidates so repo self)"
      and res: "check_candidates so repo self v (n # rest) = Inr ys"
    from res obtain sub ys1 ys2 where nv: "n \<notin> set v" and g: "get_group repo n = Inr sub"
      and ys1: "check_subgroup_names so repo sub (v @ [name self]) = Inr ys1"
      and ys2: "check_candidates so repo self v rest = Inr ys2"
      by (rule check_candidates_Cons_Inr)
    from get_group_Inr [OF g] have submem: "sub \<in> set (repo_groups repo)" and nm: "name sub = n"
      by simp_all
    from sub have edge: "(name self, n) \<in> ?E"
      using candidate_edge [OF so ok mem] by simp
    from "3.IH"(1) [OF nv g] so ok submem ys1
    have a1: "?E\<^sup>+ `` {n} \<inter> (set v \<union> {name self}) = {}"
      and b1: "\<forall>x \<in> ?E\<^sup>* `` {n}. (x, x) \<notin> ?E\<^sup>+"
      using nm by simp_all
    have "n \<noteq> name self"
    proof
      assume "n = name self"
      with edge have "n \<in> ?E\<^sup>+ `` {n}" by auto
      with a1 \<open>n = name self\<close> show False by blast
    qed
    with a1 nv have c1: "?E\<^sup>* `` {n} \<inter> (set v \<union> {name self}) = {}"
      by (auto simp: rtrancl_Image_single)
    from "3.IH"(2) [OF nv g ys1] so ok mem sub ys2
    have a2: "?E\<^sup>* `` set rest \<inter> (set v \<union> {name self}) = {}"
      and b2: "\<forall>x \<in> ?E\<^sup>* `` set rest. (x, x) \<notin> ?E\<^sup>+"
      by simp_all
    have split: "?E\<^sup>* `` set (n # rest) = ?E\<^sup>* `` {n} \<union> ?E\<^sup>* `` set rest" by auto
    show "?E\<^sup>* `` set (n # rest) \<inter> (set v \<union> {name self}) = {}
        \<and> (\<forall>x \<in> ?E\<^sup>* `` set (n # rest). (x, x) \<notin> ?E\<^sup>+)"
      unfolding split using c1 a2 b1 b2 by blast
  qed
qed

section \<open>What the traversal raises\<close>

text \<open>
  The errors of a traversal that starts at the name \<open>a\<close>: a subgroup name of a reachable
  group that no group of the repository has, or a name \<open>n\<close> on the path of a reachable
  group that has \<open>n\<close> as a subgroup, with the chain built from that path.
\<close>

definition traversal_error :: "repository \<Rightarrow> string \<Rightarrow> error \<Rightarrow> bool" where
  "traversal_error repo a e \<longleftrightarrow>
     (\<exists>h n. e = NoSuchSubgroup h n \<and> (a, h) \<in> (subgroup_edges repo)\<^sup>*
         \<and> (h, n) \<in> subgroup_edges repo \<and> n \<notin> name ` set (repo_groups repo))
   \<or> (\<exists>n h w. e = SubgroupLoop n (build_error_chain n h w) \<and> n \<in> set w
         \<and> (a, n) \<in> (subgroup_edges repo)\<^sup>+ \<and> (n, n) \<in> (subgroup_edges repo)\<^sup>+)"

lemma traversal_error_step:
  assumes "(a, b) \<in> subgroup_edges repo" and "traversal_error repo b e"
  shows "traversal_error repo a e"
proof -
  from assms(1) have "(a, x) \<in> (subgroup_edges repo)\<^sup>*" if "(b, x) \<in> (subgroup_edges repo)\<^sup>*" for x
    using that by (rule converse_rtrancl_into_rtrancl)
  moreover from assms(1) have "(a, x) \<in> (subgroup_edges repo)\<^sup>+"
    if "(b, x) \<in> (subgroup_edges repo)\<^sup>+" for x
    using that by (rule trancl_into_trancl2)
  ultimately show ?thesis
    using assms(2) unfolding traversal_error_def by blast
qed

lemma traversal_errors:
  "set_order_ok so \<longrightarrow> repo_ok repo \<longrightarrow> self \<in> set (repo_groups repo) \<longrightarrow>
     (\<forall>x \<in> set v. (x, name self) \<in> (subgroup_edges repo)\<^sup>*) \<longrightarrow>
     (\<forall>e. check_subgroup_names so repo self v = Inl e \<longrightarrow> traversal_error repo (name self) e)"
  "set_order_ok so \<longrightarrow> repo_ok repo \<longrightarrow> self \<in> set (repo_groups repo) \<longrightarrow>
     set ns \<subseteq> set (subgroup_candidates so repo self) \<longrightarrow>
     (\<forall>x \<in> set v. (x, name self) \<in> (subgroup_edges repo)\<^sup>*) \<longrightarrow>
     (\<forall>e. check_candidates so repo self v ns = Inl e \<longrightarrow> traversal_error repo (name self) e)"
proof (induction so repo self v and so repo self v ns
        rule: check_subgroup_names_check_candidates.induct)
  case (1 so repo self v)
  then show ?case
    by (auto split: sum.splits)
next
  case (2 so repo self v)
  show ?case by simp
next
  case (3 so repo self v n rest)
  show ?case
  proof (intro impI allI)
    fix e
    let ?E = "subgroup_edges repo"
    assume so: "set_order_ok so" and ok: "repo_ok repo" and mem: "self \<in> set (repo_groups repo)"
      and sub: "set (n # rest) \<subseteq> set (subgroup_candidates so repo self)"
      and inv: "\<forall>x \<in> set v. (x, name self) \<in> ?E\<^sup>*"
      and res: "check_candidates so repo self v (n # rest) = Inl e"
    from sub have edge: "(name self, n) \<in> ?E"
      using candidate_edge [OF so ok mem] by simp
    show "traversal_error repo (name self) e"
    proof (cases "n \<in> set v")
      case True
      with res have e: "e = SubgroupLoop n (build_error_chain n (name self) v)" by simp
      from True inv have "(n, name self) \<in> ?E\<^sup>*" by blast
      then have "(n, n) \<in> ?E\<^sup>+" using edge by (rule rtrancl_into_trancl1)
      moreover from edge have "(name self, n) \<in> ?E\<^sup>+" by (rule r_into_trancl)
      ultimately show ?thesis
        unfolding traversal_error_def using e True by blast
    next
      case nv: False
      show ?thesis
      proof (cases "get_group repo n")
        case (Inl x)
        with res nv have "e = NoSuchSubgroup (name self) n" by simp
        moreover from get_group_Inl [OF Inl] have "n \<notin> name ` set (repo_groups repo)" .
        ultimately show ?thesis
          unfolding traversal_error_def using edge by blast
      next
        case g: (Inr sub)
        from get_group_Inr [OF g] have submem: "sub \<in> set (repo_groups repo)"
          and nm: "name sub = n" by simp_all
        have inv': "\<forall>x \<in> set (v @ [name self]). (x, name sub) \<in> ?E\<^sup>*"
        proof
          fix x assume "x \<in> set (v @ [name self])"
          then have "(x, name self) \<in> ?E\<^sup>*" using inv by auto
          then show "(x, name sub) \<in> ?E\<^sup>*" unfolding nm
            using edge by (rule rtrancl_into_rtrancl)
        qed
        show ?thesis
        proof (cases "check_subgroup_names so repo sub (v @ [name self])")
          case (Inl e1)
          with res nv g have "e = e1" by simp
          with "3.IH"(1) [OF nv g] so ok submem inv' Inl
          have "traversal_error repo n e" using nm by simp
          with edge show ?thesis by (rule traversal_error_step)
        next
          case ys1: (Inr ys1)
          with res nv g have "check_candidates so repo self v rest = Inl e"
            by (simp split: sum.splits)
          with "3.IH"(2) [OF nv g ys1] so ok mem sub inv show ?thesis by simp
        qed
      qed
    qed
  qed
qed

lemma build_error_chain_ends:
  assumes "n \<in> set w"
  shows "hd (build_error_chain n h w) = n \<and> last (build_error_chain n h w) = n"
  using build_error_chain_general [OF assms, of h] by simp

lemma get_groups_registered:
  "set ns \<subseteq> name ` set (repo_groups repo) \<Longrightarrow>
     \<exists>gs. get_groups repo ns = Inr gs \<and> map name gs = ns"
proof (induction ns)
  case Nil
  show ?case by simp
next
  case (Cons n ns)
  then obtain gs where gs: "get_groups repo ns = Inr gs" "map name gs = ns" by auto
  from Cons.prems obtain g where g: "get_group repo n = Inr g"
    by (cases "get_group repo n") (auto dest: get_group_Inl)
  with get_group_Inr [OF g] gs show ?case by simp
qed

lemma subgroups_of_check:
  assumes "set_order_ok so" and "check_subgroup_names so repo self [name self] = Inr ys"
  shows "\<exists>gs. subgroups so repo self = Inr gs \<and> map name gs = so ys"
proof -
  from yielded_names_registered(1) [of so repo self "[name self]"] assms(2)
  have "set ys \<subseteq> name ` set (repo_groups repo)" by auto
  with assms(1) have "set (so ys) \<subseteq> name ` set (repo_groups repo)"
    by (simp add: set_order_ok_def)
  from get_groups_registered [OF this] assms(2) show ?thesis
    by (simp add: subgroups_def)
qed

lemma subgroups_Inr:
  assumes "set_order_ok so" and "subgroups so repo self = Inr gs"
  obtains ys where "check_subgroup_names so repo self [name self] = Inr ys"
    and "name ` set gs = set ys"
proof -
  from assms(2) obtain ys where ys: "check_subgroup_names so repo self [name self] = Inr ys"
    by (cases "check_subgroup_names so repo self [name self]") (auto simp: subgroups_def)
  from subgroups_of_check [OF assms(1) ys] assms(2) have "map name gs = so ys" by auto
  then have "set (map name gs) = set (so ys)" by simp
  with assms(1) have "name ` set gs = set ys" by (simp add: set_order_ok_def)
  with ys show ?thesis using that by blast
qed

lemma subgroups_Inl:
  "check_subgroup_names so repo self [name self] = Inl e \<Longrightarrow> subgroups so repo self = Inl e"
  by (simp add: subgroups_def)

text \<open>
  C10. Every name that the traversal started by \<open>subgroups\<close> (with the group's own name
  as the path) yields is the name of a group of the repository, so when the traversal
  completes, each \<open>repo.get_group\<close> of \<open>subgroups\<close> succeeds and \<open>subgroups\<close> returns the
  groups with the collected names.
\<close>

theorem yielded_names_resolve:
  assumes "set_order_ok so" and "check_subgroup_names so repo self [name self] = Inr ys"
  shows "(\<forall>n \<in> set ys. \<exists>g. get_group repo n = Inr g \<and> name g = n)
       \<and> (\<exists>gs. subgroups so repo self = Inr gs \<and> map name gs = so ys)"
proof -
  from yielded_names_registered(1) [of so repo self "[name self]"] assms(2)
  have reg: "set ys \<subseteq> name ` set (repo_groups repo)" by auto
  have "\<exists>g. get_group repo n = Inr g \<and> name g = n" if "n \<in> set ys" for n
  proof (cases "get_group repo n")
    case (Inl e)
    from get_group_Inl [OF this] reg that show ?thesis by blast
  next
    case (Inr g)
    with get_group_Inr [OF Inr] show ?thesis by simp
  qed
  with subgroups_of_check [OF assms] show ?thesis by blast
qed

text \<open>
  C1. In a repository whose subgroup relation is acyclic, the names of the groups that
  \<open>subgroups\<close> of a group produces never contain the group's own name and are exactly the
  names reachable from it by one or more subgroup edges; and \<open>subgroups\<close> does produce them
  when every explicit subgroup name is the name of a group.
\<close>

theorem subgroups_are_reachable_names:
  assumes "set_order_ok so" and "repo_ok repo" and "self \<in> set (repo_groups repo)"
    and "acyclic (subgroup_edges repo)"
  shows "(subgroups_exist repo \<longrightarrow> (\<exists>gs. subgroups so repo self = Inr gs))
       \<and> (\<forall>gs. subgroups so repo self = Inr gs \<longrightarrow>
            name self \<notin> name ` set gs
            \<and> name ` set gs = {n. (name self, n) \<in> (subgroup_edges repo)\<^sup>+})"
proof (intro conjI impI allI)
  assume ex: "subgroups_exist repo"
  show "\<exists>gs. subgroups so repo self = Inr gs"
  proof (cases "check_subgroup_names so repo self [name self]")
    case (Inl e)
    with traversal_errors(1) [of so repo self "[name self]"] assms(1-3)
    have "traversal_error repo (name self) e" by simp
    then show ?thesis
      unfolding traversal_error_def
      using edge_target_exists [OF ex] assms(4) by (auto simp: acyclic_def)
  next
    case (Inr ys)
    from subgroups_of_check [OF assms(1) this] show ?thesis by blast
  qed
next
  fix gs
  assume "subgroups so repo self = Inr gs"
  with assms(1) obtain ys where ys: "check_subgroup_names so repo self [name self] = Inr ys"
    and names: "name ` set gs = set ys"
    by (rule subgroups_Inr)
  from yielded_names_reachable(1) [of so repo self "[name self]"] assms(1-3) ys
  have eq: "set ys = (subgroup_edges repo)\<^sup>+ `` {name self}" by simp
  then show "name ` set gs = {n. (name self, n) \<in> (subgroup_edges repo)\<^sup>+}"
    using names by auto
  from assms(4) have "(name self, name self) \<notin> (subgroup_edges repo)\<^sup>+"
    by (simp add: acyclic_def)
  with eq names show "name self \<notin> name ` set gs" by auto
qed

text \<open>
  C2 (amended). When a cycle of the subgroup relation can be reached from a group,
  \<open>subgroups\<close> of the group raises a \<open>RepositoryError\<close>: the subgroup loop error for a
  reachable name that lies on a cycle, with a chain that starts and ends with that name, or
  the error of a missing subgroup for a reachable name that no group has, whichever the
  traversal meets first. When every name that can be reached from the group is the name of
  a group, the error is the subgroup loop error.
\<close>

theorem reachable_cycle_raises:
  assumes "set_order_ok so" and "repo_ok repo" and "self \<in> set (repo_groups repo)"
    and "(name self, c) \<in> (subgroup_edges repo)\<^sup>*" and "(c, c) \<in> (subgroup_edges repo)\<^sup>+"
  shows "\<exists>e. subgroups so repo self = Inl e \<and> is_repository_error e
           \<and> ((\<exists>n chain. e = SubgroupLoop n chain \<and> hd chain = n \<and> last chain = n
                  \<and> (name self, n) \<in> (subgroup_edges repo)\<^sup>+
                  \<and> (n, n) \<in> (subgroup_edges repo)\<^sup>+)
              \<or> (\<exists>h n. e = NoSuchSubgroup h n
                  \<and> (name self, n) \<in> (subgroup_edges repo)\<^sup>+
                  \<and> n \<notin> name ` set (repo_groups repo)))
           \<and> (reachable_subgroups_exist repo (name self) \<longrightarrow>
                (\<exists>n chain. e = SubgroupLoop n chain))"
proof (cases "check_subgroup_names so repo self [name self]")
  case (Inr ys)
  with return_excludes_cycle(1) [of so repo self "[name self]"] assms(1-3)
  have "\<forall>x \<in> (subgroup_edges repo)\<^sup>* `` {name self}. (x, x) \<notin> (subgroup_edges repo)\<^sup>+"
    by simp
  with assms(4,5) show ?thesis by blast
next
  case (Inl e)
  let ?E = "subgroup_edges repo"
  from Inl traversal_errors(1) [of so repo self "[name self]"] assms(1-3)
  have "traversal_error repo (name self) e" by simp
  then consider
    (missing) h n where "e = NoSuchSubgroup h n" "(name self, h) \<in> ?E\<^sup>*" "(h, n) \<in> ?E"
      "n \<notin> name ` set (repo_groups repo)"
  | (loop) n h w where "e = SubgroupLoop n (build_error_chain n h w)" "n \<in> set w"
      "(name self, n) \<in> ?E\<^sup>+" "(n, n) \<in> ?E\<^sup>+"
    unfolding traversal_error_def by blast
  then have alt: "(\<exists>n chain. e = SubgroupLoop n chain \<and> hd chain = n \<and> last chain = n
                  \<and> (name self, n) \<in> ?E\<^sup>+ \<and> (n, n) \<in> ?E\<^sup>+)
              \<or> (\<exists>h n. e = NoSuchSubgroup h n \<and> (name self, n) \<in> ?E\<^sup>+
                  \<and> n \<notin> name ` set (repo_groups repo))"
  proof cases
    case missing
    from missing(2,3) have "(name self, n) \<in> ?E\<^sup>+" by (rule rtrancl_into_trancl1)
    with missing(1,4) show ?thesis by blast
  next
    case loop
    from build_error_chain_ends [OF loop(2), of h] loop(1,3,4) show ?thesis by blast
  qed
  then have rep: "is_repository_error e" by auto
  have "\<exists>n chain. e = SubgroupLoop n chain" if "reachable_subgroups_exist repo (name self)"
    using alt that unfolding reachable_subgroups_exist_def by blast
  with alt rep subgroups_Inl [OF Inl] show ?thesis by blast
qed

section \<open>Examples of traversals\<close>

text \<open>
  The cycle \<open>A \<rightarrow> B \<rightarrow> C \<rightarrow> A\<close>; an acyclic repository with explicit and pattern-derived
  subgroups; a cycle \<open>X \<rightarrow> A \<rightarrow> X\<close> next to a subgroup name \<open>M\<close> that no group has; and a
  group \<open>B\<close> below \<open>A\<close> that lists itself as a subgroup.
\<close>

definition cycle_a :: group where "cycle_a = mk_group 0 ''A'' [''B''] []"
definition cycle_b :: group where "cycle_b = mk_group 1 ''B'' [''C''] []"
definition cycle_c :: group where "cycle_c = mk_group 2 ''C'' [''A''] []"

definition cycle_repo :: repository where
  "cycle_repo = \<lparr> repo_groups = [cycle_a, cycle_b, cycle_c], repo_nodes = [] \<rparr>"

lemmas cycle_defs = cycle_repo_def cycle_a_def cycle_b_def cycle_c_def

definition site :: group where "site = mk_group 4 ''site'' [''web'', ''db-primary''] []"

definition site_repo :: repository where
  "site_repo = \<lparr> repo_groups = [site, web, db_primary, db_replica, cache], repo_nodes = [] \<rparr>"

lemmas site_defs = site_repo_def site_def web_def db_primary_def db_replica_def cache_def
  db_pattern_def

definition dangling_x :: group where "dangling_x = mk_group 0 ''X'' [''M'', ''A''] []"
definition dangling_a :: group where "dangling_a = mk_group 1 ''A'' [''X''] []"

definition dangling_repo :: repository where
  "dangling_repo = \<lparr> repo_groups = [dangling_x, dangling_a], repo_nodes = [] \<rparr>"

lemmas dangling_defs = dangling_repo_def dangling_x_def dangling_a_def

definition loop_a :: group where "loop_a = mk_group 0 ''A'' [''B''] []"
definition loop_b :: group where "loop_b = mk_group 1 ''B'' [''B''] []"

definition loop_repo :: repository where
  "loop_repo = \<lparr> repo_groups = [loop_a, loop_b], repo_nodes = [] \<rparr>"

lemmas loop_defs = loop_repo_def loop_a_def loop_b_def

lemma set_order_ok_remdups: "set_order_ok remdups"
  by (simp add: set_order_ok_def)

lemmas eval_defs = mk_group_simps subgroups_def subgroup_candidates_def
  subgroup_names_from_patterns_def get_group_def build_error_chain_def group_eq_def

lemma site_repo_ok: "repo_ok site_repo"
  by (simp add: repo_ok_def site_defs mk_group_simps)

lemma site_edges:
  "subgroup_edges site_repo =
     {(''site'', ''web''), (''site'', ''db-primary''), (''web'', ''db-primary''),
      (''web'', ''db-replica'')}"
  by (auto simp: subgroup_edges_def site_defs eval_defs)

definition site_rank :: "string \<Rightarrow> nat" where
  "site_rank n = (if n = ''site'' then 2 else if n = ''web'' then 1 else 0)"

lemma site_acyclic: "acyclic (subgroup_edges site_repo)"
proof (rule acyclicI_order)
  fix a b
  assume "(a, b) \<in> subgroup_edges site_repo"
  then show "site_rank b < site_rank a"
    unfolding site_edges by (auto simp: site_rank_def)
qed

lemma site_check:
  "check_subgroup_names remdups site_repo site [name site]
     = Inr [''db-primary'', ''db-replica'', ''web'', ''db-primary'']"
  by (simp add: site_defs eval_defs)

lemma site_subgroups: "subgroups remdups site_repo site = Inr [db_replica, web, db_primary]"
  by (simp add: site_defs eval_defs)

theorem yielded_names_resolve_witness:
  "set_order_ok remdups
   \<and> check_subgroup_names remdups site_repo site [name site]
       = Inr [''db-primary'', ''db-replica'', ''web'', ''db-primary'']
   \<and> (\<exists>g. get_group site_repo ''db-replica'' = Inr g \<and> name g = ''db-replica'')
   \<and> (\<exists>gs. subgroups remdups site_repo site = Inr gs
         \<and> map name gs = [''db-replica'', ''web'', ''db-primary''])"
proof -
  note r = yielded_names_resolve [OF set_order_ok_remdups site_check]
  from r have "\<exists>gs. subgroups remdups site_repo site = Inr gs
         \<and> map name gs = [''db-replica'', ''web'', ''db-primary'']"
    by simp
  moreover from r
  have "\<exists>g. get_group site_repo ''db-replica'' = Inr g \<and> name g = ''db-replica''"
    by simp
  ultimately show ?thesis using set_order_ok_remdups site_check by blast
qed

theorem subgroups_are_reachable_names_witness:
  "set_order_ok remdups \<and> repo_ok site_repo \<and> site \<in> set (repo_groups site_repo)
   \<and> acyclic (subgroup_edges site_repo) \<and> subgroups_exist site_repo
   \<and> subgroups remdups site_repo site = Inr [db_replica, web, db_primary]
   \<and> name site \<notin> name ` set [db_replica, web, db_primary]
   \<and> name ` set [db_replica, web, db_primary]
       = {n. (name site, n) \<in> (subgroup_edges site_repo)\<^sup>+}"
proof -
  have mem: "site \<in> set (repo_groups site_repo)" by (simp add: site_repo_def)
  have ex: "subgroups_exist site_repo"
    by (simp add: subgroups_exist_def site_defs mk_group_simps)
  from subgroups_are_reachable_names [OF set_order_ok_remdups site_repo_ok mem site_acyclic]
    site_subgroups
  have "name site \<notin> name ` set [db_replica, web, db_primary]
   \<and> name ` set [db_replica, web, db_primary]
       = {n. (name site, n) \<in> (subgroup_edges site_repo)\<^sup>+}"
    by blast
  with set_order_ok_remdups site_repo_ok mem site_acyclic ex site_subgroups
  show ?thesis by blast
qed

lemma cycle_repo_ok: "repo_ok cycle_repo"
  by (simp add: repo_ok_def cycle_defs mk_group_simps)

lemma cycle_edges:
  "(''A'', ''B'') \<in> subgroup_edges cycle_repo"
  "(''B'', ''C'') \<in> subgroup_edges cycle_repo"
  "(''C'', ''A'') \<in> subgroup_edges cycle_repo"
  by (simp_all add: subgroup_edges_def cycle_defs eval_defs)

text \<open>The cycle \<open>A \<rightarrow> B \<rightarrow> C \<rightarrow> A\<close> is reported from \<open>A\<close> with the chain \<open>A, B, C, A\<close>.\<close>

lemma cycle_repo_chain:
  "subgroups remdups cycle_repo cycle_a = Inl (SubgroupLoop ''A'' [''A'', ''B'', ''C'', ''A''])"
  by (simp add: cycle_defs eval_defs)

text \<open>
  A cycle \<open>X \<rightarrow> A \<rightarrow> X\<close>, and a group \<open>U\<close> that cannot be reached from \<open>X\<close> and lists a
  subgroup \<open>M\<close> that no group has.
\<close>

definition far_x :: group where "far_x = mk_group 0 ''X'' [''A''] []"
definition far_a :: group where "far_a = mk_group 1 ''A'' [''X''] []"
definition far_u :: group where "far_u = mk_group 2 ''U'' [''M''] []"

definition far_repo :: repository where
  "far_repo = \<lparr> repo_groups = [far_x, far_a, far_u], repo_nodes = [] \<rparr>"

lemmas far_defs = far_repo_def far_x_def far_a_def far_u_def

lemma far_edges:
  "subgroup_edges far_repo = {(''X'', ''A''), (''A'', ''X''), (''U'', ''M'')}"
  by (auto simp: subgroup_edges_def far_defs eval_defs)

lemma far_reachable:
  assumes "(''X'', y) \<in> (subgroup_edges far_repo)\<^sup>+"
  shows "y = ''X'' \<or> y = ''A''"
  using assms
proof (induction rule: trancl_induct)
  case (base y)
  then show ?case unfolding far_edges by simp
next
  case (step y z)
  then show ?case unfolding far_edges by auto
qed

theorem reachable_cycle_raises_witness:
  "set_order_ok remdups \<and> repo_ok far_repo \<and> far_x \<in> set (repo_groups far_repo)
   \<and> (name far_x, ''A'') \<in> (subgroup_edges far_repo)\<^sup>*
   \<and> (''A'', ''A'') \<in> (subgroup_edges far_repo)\<^sup>+
   \<and> reachable_subgroups_exist far_repo (name far_x) \<and> \<not> subgroups_exist far_repo
   \<and> subgroups remdups far_repo far_x = Inl (SubgroupLoop ''X'' [''X'', ''A'', ''X''])
   \<and> hd [''X'', ''A'', ''X''] = ''X'' \<and> last [''X'', ''A'', ''X''] = ''X''
   \<and> (''X'', ''X'') \<in> (subgroup_edges far_repo)\<^sup>+"
proof -
  have ok: "repo_ok far_repo" by (simp add: repo_ok_def far_defs mk_group_simps)
  have mem: "far_x \<in> set (repo_groups far_repo)" by (simp add: far_repo_def)
  have nm: "name far_x = ''X''" by (simp add: far_x_def mk_group_simps)
  have e1: "(''X'', ''A'') \<in> subgroup_edges far_repo"
    and e2: "(''A'', ''X'') \<in> subgroup_edges far_repo"
    unfolding far_edges by simp_all
  from e1 have r: "(name far_x, ''A'') \<in> (subgroup_edges far_repo)\<^sup>*" unfolding nm by auto
  from e2 e1 have c: "(''A'', ''A'') \<in> (subgroup_edges far_repo)\<^sup>+"
    by (meson trancl.intros)
  have re: "reachable_subgroups_exist far_repo (name far_x)"
    unfolding reachable_subgroups_exist_def nm
  proof
    fix y assume "y \<in> (subgroup_edges far_repo)\<^sup>+ `` {''X''}"
    then have "y = ''X'' \<or> y = ''A''" using far_reachable by blast
    then show "y \<in> name ` set (repo_groups far_repo)"
      by (auto simp: far_defs mk_group_simps)
  qed
  have nex: "\<not> subgroups_exist far_repo"
    by (simp add: subgroups_exist_def far_defs mk_group_simps)
  have v: "subgroups remdups far_repo far_x = Inl (SubgroupLoop ''X'' [''X'', ''A'', ''X''])"
    by (simp add: far_defs eval_defs)
  from reachable_cycle_raises [OF set_order_ok_remdups ok mem r c] v
  have "hd [''X'', ''A'', ''X''] = ''X'' \<and> last [''X'', ''A'', ''X''] = ''X''
        \<and> (''X'', ''X'') \<in> (subgroup_edges far_repo)\<^sup>+"
    by auto
  with set_order_ok_remdups ok mem r c re nex v show ?thesis by blast
qed

text \<open>
  A cycle can be reached from \<open>X\<close>, but the traversal meets the missing subgroup \<open>M\<close>
  first and raises the error of a missing subgroup, not the subgroup loop error.
\<close>

theorem dangling_subgroup_counterexample:
  "repo_ok dangling_repo \<and> dangling_x \<in> set (repo_groups dangling_repo)
   \<and> (name dangling_x, name dangling_x) \<in> (subgroup_edges dangling_repo)\<^sup>+
   \<and> subgroups remdups dangling_repo dangling_x = Inl (NoSuchSubgroup ''X'' ''M'')"
proof -
  have "(''X'', ''A'') \<in> subgroup_edges dangling_repo"
    and "(''A'', ''X'') \<in> subgroup_edges dangling_repo"
    by (simp_all add: subgroup_edges_def dangling_defs eval_defs)
  then have "(''X'', ''X'') \<in> (subgroup_edges dangling_repo)\<^sup>+"
    by (meson trancl.intros)
  moreover have "name dangling_x = ''X''" by (simp add: dangling_x_def mk_group_simps)
  moreover have "repo_ok dangling_repo"
    by (simp add: repo_ok_def dangling_defs mk_group_simps)
  moreover have "dangling_x \<in> set (repo_groups dangling_repo)"
    by (simp add: dangling_repo_def)
  moreover have "subgroups remdups dangling_repo dangling_x = Inl (NoSuchSubgroup ''X'' ''M'')"
    by (simp add: dangling_defs eval_defs)
  ultimately show ?thesis by simp
qed

section \<open>The depth of the recursion\<close>

text \<open>The number of group names of the repository that are not on the path.\<close>

definition unvisited :: "repository \<Rightarrow> string list \<Rightarrow> nat" where
  "unvisited repo v = card (name ` set (repo_groups repo) - set v)"

lemma unvisited_extend:
  assumes "g \<in> set (repo_groups repo)" and "name g \<notin> set v"
  shows "Suc (unvisited repo (v @ [name g])) = unvisited repo v"
proof -
  let ?N = "name ` set (repo_groups repo)"
  have mem: "name g \<in> ?N - set v" using assms by simp
  have fin: "finite (?N - set v)" by simp
  have eq: "?N - set (v @ [name g]) = (?N - set v) - {name g}" by auto
  from mem have "card ((?N - set v) - {name g}) = card (?N - set v) - 1"
    by (rule card_Diff_singleton)
  moreover from fin mem have "0 < card (?N - set v)"
    using card_gt_0_iff by blast
  ultimately show ?thesis
    unfolding unvisited_def eq by arith
qed

lemma unvisited_same_set: "set v' = set v \<Longrightarrow> unvisited repo v' = unvisited repo v"
  by (simp add: unvisited_def)

lemma unvisited_root:
  assumes "repo_ok repo" and "g \<in> set (repo_groups repo)"
  shows "Suc (unvisited repo [name g]) = length (repo_groups repo)"
proof -
  have "Suc (unvisited repo ([] @ [name g])) = unvisited repo []"
    using assms(2) by (rule unvisited_extend) simp
  moreover have "unvisited repo [] = length (repo_groups repo)"
  proof -
    from assms(1) have "distinct (map name (repo_groups repo))" by (simp add: repo_ok_def)
    then have "card (set (map name (repo_groups repo))) = length (map name (repo_groups repo))"
      by (rule distinct_card)
    then show ?thesis by (simp add: unvisited_def)
  qed
  ultimately show ?thesis by simp
qed

text \<open>Whether and what a traversal returns depends on the set of the names on the path only.\<close>

lemma return_depends_on_path_set:
  "\<forall>v2 ys. set v2 = set v \<longrightarrow> check_subgroup_names so repo self v = Inr ys \<longrightarrow>
     check_subgroup_names so repo self v2 = Inr ys"
  "\<forall>v2 ys. set v2 = set v \<longrightarrow> check_candidates so repo self v ns = Inr ys \<longrightarrow>
     check_candidates so repo self v2 ns = Inr ys"
proof (induction so repo self v and so repo self v ns
        rule: check_subgroup_names_check_candidates.induct)
  case (1 so repo self v)
  show ?case
  proof (intro allI impI)
    fix v2 ys
    assume eq: "set v2 = set v" and res: "check_subgroup_names so repo self v = Inr ys"
    from res obtain ys0 where
      ys0: "check_candidates so repo self v (subgroup_candidates so repo self) = Inr ys0"
      and ys: "ys = ys0 @ (if name self \<notin> set v then [name self] else [])"
      by (rule check_subgroup_names_Inr)
    from 1 [THEN spec, of v2, THEN spec, of ys0] eq ys0
    have "check_candidates so repo self v2 (subgroup_candidates so repo self) = Inr ys0"
      by (rule mp [OF mp])
    moreover have "check_subgroup_names so repo self v2 =
        (case check_candidates so repo self v2 (subgroup_candidates so repo self) of
           Inl e \<Rightarrow> Inl e
         | Inr yielded \<Rightarrow>
             Inr (yielded @ (if name self \<notin> set v2 then [name self] else [])))"
      by (rule check_subgroup_names.simps)
    ultimately show "check_subgroup_names so repo self v2 = Inr ys"
      using ys eq by simp
  qed
next
  case (2 so repo self v)
  show ?case by simp
next
  case (3 so repo self v n rest)
  show ?case
  proof (intro allI impI)
    fix v2 ys
    assume eq: "set v2 = set v" and res: "check_candidates so repo self v (n # rest) = Inr ys"
    from res obtain sub ys1 ys2 where nv: "n \<notin> set v" and g: "get_group repo n = Inr sub"
      and ys1: "check_subgroup_names so repo sub (v @ [name self]) = Inr ys1"
      and ys2: "check_candidates so repo self v rest = Inr ys2" and ys: "ys = ys1 @ ys2"
      by (rule check_candidates_Cons_Inr)
    have eq': "set (v2 @ [name self]) = set (v @ [name self])" using eq by simp
    from "3.IH"(1) [OF nv g, THEN spec, of "v2 @ [name self]", THEN spec, of ys1] eq' ys1
    have c1: "check_subgroup_names so repo sub (v2 @ [name self]) = Inr ys1"
      by (rule mp [OF mp])
    from "3.IH"(2) [OF nv g ys1, THEN spec, of v2, THEN spec, of ys2] eq ys2
    have c2: "check_candidates so repo self v2 rest = Inr ys2"
      by (rule mp [OF mp])
    from nv eq have nv2: "n \<notin> set v2" by simp
    show "check_candidates so repo self v2 (n # rest) = Inr ys"
      unfolding check_candidates.simps using nv2 g c1 c2 ys by simp
  qed
qed

text \<open>A subgroup whose traversal returns is not the group that lists it.\<close>

lemma returning_subgroup_differs:
  assumes "set_order_ok so" and "repo_ok repo" and "self \<in> set (repo_groups repo)"
    and "n \<in> set (subgroup_candidates so repo self)" and "get_group repo n = Inr sub"
    and "check_subgroup_names so repo sub (v @ [name self]) = Inr ys"
  shows "n \<noteq> name self"
proof
  assume eq: "n = name self"
  from get_group_Inr [OF assms(5)] have submem: "sub \<in> set (repo_groups repo)"
    and nm: "name sub = n" by simp_all
  from candidate_edge [OF assms(1-4)] eq
  have "n \<in> (subgroup_edges repo)\<^sup>+ `` {n}" by auto
  moreover from return_excludes_cycle(1) [of so repo sub "v @ [name self]"]
    assms(1,2,6) submem nm
  have "(subgroup_edges repo)\<^sup>+ `` {n} \<inter> set (v @ [name self]) = {}" by simp
  ultimately show False using eq by auto
qed

text \<open>
  A traversal that returns, of a group that is not on the path, needs no more nested calls
  than there are group names off the path.
\<close>

lemma returning_depth:
  "set_order_ok so \<longrightarrow> repo_ok repo \<longrightarrow> self \<in> set (repo_groups repo) \<longrightarrow>
     name self \<notin> set v \<longrightarrow>
     (\<forall>ys d. check_subgroup_names so repo self v = Inr ys \<longrightarrow> unvisited repo v \<le> d \<longrightarrow>
        check_subgroup_names_depth d so repo self v = Some (Inr ys))"
  "set_order_ok so \<longrightarrow> repo_ok repo \<longrightarrow> self \<in> set (repo_groups repo) \<longrightarrow>
     name self \<notin> set v \<longrightarrow> set ns \<subseteq> set (subgroup_candidates so repo self) \<longrightarrow>
     (\<forall>ys d. check_candidates so repo self v ns = Inr ys \<longrightarrow> unvisited repo v \<le> Suc d \<longrightarrow>
        check_candidates_depth d so repo self v ns = Some (Inr ys))"
proof (induction so repo self v and so repo self v ns
        rule: check_subgroup_names_check_candidates.induct)
  case (1 so repo self v)
  show ?case
  proof (intro allI impI)
    fix ys d
    assume so: "set_order_ok so" and ok: "repo_ok repo" and mem: "self \<in> set (repo_groups repo)"
      and off: "name self \<notin> set v"
      and res: "check_subgroup_names so repo self v = Inr ys" and d: "unvisited repo v \<le> d"
    from res obtain ys0 where
      ys0: "check_candidates so repo self v (subgroup_candidates so repo self) = Inr ys0"
      and ys: "ys = ys0 @ (if name self \<notin> set v then [name self] else [])"
      by (rule check_subgroup_names_Inr)
    from unvisited_extend [OF mem off] d obtain d' where d': "d = Suc d'"
      by (cases d) auto
    from 1 so ok mem off ys0 d d'
    have "check_candidates_depth d' so repo self v (subgroup_candidates so repo self)
            = Some (Inr ys0)" by simp
    with ys d' show "check_subgroup_names_depth d so repo self v = Some (Inr ys)" by simp
  qed
next
  case (2 so repo self v)
  show ?case by simp
next
  case (3 so repo self v n rest)
  show ?case
  proof (intro allI impI)
    fix ys d
    assume so: "set_order_ok so" and ok: "repo_ok repo" and mem: "self \<in> set (repo_groups repo)"
      and off: "name self \<notin> set v"
      and sub: "set (n # rest) \<subseteq> set (subgroup_candidates so repo self)"
      and res: "check_candidates so repo self v (n # rest) = Inr ys"
      and d: "unvisited repo v \<le> Suc d"
    from res obtain sub ys1 ys2 where nv: "n \<notin> set v" and g: "get_group repo n = Inr sub"
      and ys1: "check_subgroup_names so repo sub (v @ [name self]) = Inr ys1"
      and ys2: "check_candidates so repo self v rest = Inr ys2" and ys: "ys = ys1 @ ys2"
      by (rule check_candidates_Cons_Inr)
    from get_group_Inr [OF g] have submem: "sub \<in> set (repo_groups repo)" and nm: "name sub = n"
      by simp_all
    from sub have "n \<in> set (subgroup_candidates so repo self)" by simp
    from returning_subgroup_differs [OF so ok mem this g ys1] nv nm
    have off': "name sub \<notin> set (v @ [name self])" by simp
    from unvisited_extend [OF mem off] d have "unvisited repo (v @ [name self]) \<le> d" by simp
    with "3.IH"(1) [OF nv g] so ok submem off' ys1
    have "check_subgroup_names_depth d so repo sub (v @ [name self]) = Some (Inr ys1)"
      by blast
    moreover from "3.IH"(2) [OF nv g ys1] so ok mem off sub ys2 d
    have "check_candidates_depth d so repo self v rest = Some (Inr ys2)" by simp
    ultimately show "check_candidates_depth d so repo self v (n # rest) = Some (Inr ys)"
      using nv g ys by simp
  qed
qed

text \<open>
  A group that is on the path and meets one of its subgroup names on the path, after
  subgroups whose traversals return: the nested calls are those of returning traversals.
\<close>

lemma loop_after_returning_depth:
  assumes so: "set_order_ok so" and ok: "repo_ok repo" and mem: "self \<in> set (repo_groups repo)"
    and on: "name self \<in> set v" and n: "n \<in> set v" and d: "unvisited repo v \<le> d"
  shows "(\<forall>c \<in> set pre. c \<notin> set v \<and>
            (\<exists>sub ys. get_group repo c = Inr sub
               \<and> check_subgroup_names so repo sub (v @ [name self]) = Inr ys)) \<Longrightarrow>
         check_candidates_depth d so repo self v (pre @ n # rest)
           = Some (check_candidates so repo self v (pre @ n # rest))"
proof (induction pre)
  case Nil
  from n show ?case by simp
next
  case (Cons c pre)
  from Cons.prems obtain sub ys where cv: "c \<notin> set v" and g: "get_group repo c = Inr sub"
    and ys: "check_subgroup_names so repo sub (v @ [name self]) = Inr ys"
    by auto
  from get_group_Inr [OF g] have submem: "sub \<in> set (repo_groups repo)" and nm: "name sub = c"
    by simp_all
  from cv on nm have off: "name sub \<notin> set (v @ [name self])" by auto
  from on have "set (v @ [name self]) = set v" by auto
  then have "unvisited repo (v @ [name self]) = unvisited repo v" by (rule unvisited_same_set)
  with d have d': "unvisited repo (v @ [name self]) \<le> d" by simp
  from returning_depth(1) [of so repo sub "v @ [name self]"] so ok submem off ys d'
  have c1: "check_subgroup_names_depth d so repo sub (v @ [name self]) = Some (Inr ys)"
    by blast
  from Cons.prems have "\<forall>c \<in> set pre. c \<notin> set v \<and>
            (\<exists>sub ys. get_group repo c = Inr sub
               \<and> check_subgroup_names so repo sub (v @ [name self]) = Inr ys)"
    by simp
  from Cons.IH [OF this]
  have c2: "check_candidates_depth d so repo self v (pre @ n # rest)
           = Some (check_candidates so repo self v (pre @ n # rest))" .
  show ?case
    using cv g ys c1 c2 by (simp split: sum.splits)
qed

lemma frame_depth:
  assumes "check_candidates_depth d so repo self v (subgroup_candidates so repo self)
             = Some (check_candidates so repo self v (subgroup_candidates so repo self))"
  shows "check_subgroup_names_depth (Suc d) so repo self v
           = Some (check_subgroup_names so repo self v)"
  using assms by (simp split: sum.splits)

lemma candidates_depth_step:
  assumes "n \<notin> set v" and "get_group repo n = Inr sub"
    and "check_subgroup_names_depth d so repo sub (v @ [name self])
           = Some (check_subgroup_names so repo sub (v @ [name self]))"
    and "\<And>ys. check_subgroup_names so repo sub (v @ [name self]) = Inr ys \<Longrightarrow>
           check_candidates_depth d so repo self v rest
             = Some (check_candidates so repo self v rest)"
  shows "check_candidates_depth d so repo self v (n # rest)
           = Some (check_candidates so repo self v (n # rest))"
proof (cases "check_subgroup_names so repo sub (v @ [name self])")
  case (Inl e)
  with assms(1-3) show ?thesis by simp
next
  case (Inr ys)
  with assms(1-3) assms(4) [OF Inr] show ?thesis by (simp split: sum.splits)
qed

text \<open>
  The traversal of a group that is not on the path needs at most one more nested call than
  there are group names off the path. The candidates \<open>pre\<close> that the loop has passed are kept
  in the statement: a group that lists itself is entered a second time, and there the loop
  passes the same candidates, with returning traversals, before it meets its own name.
\<close>

lemma off_path_depth:
  "set_order_ok so \<longrightarrow> repo_ok repo \<longrightarrow> self \<in> set (repo_groups repo) \<longrightarrow>
     name self \<notin> set v \<longrightarrow>
     (\<forall>d. Suc (unvisited repo v) \<le> d \<longrightarrow>
        check_subgroup_names_depth d so repo self v
          = Some (check_subgroup_names so repo self v))"
  "set_order_ok so \<longrightarrow> repo_ok repo \<longrightarrow> self \<in> set (repo_groups repo) \<longrightarrow>
     name self \<notin> set v \<longrightarrow>
     (\<forall>pre d. subgroup_candidates so repo self = pre @ ns \<longrightarrow>
        (\<forall>c \<in> set pre. c \<notin> set v \<and>
            (\<exists>sub ys. get_group repo c = Inr sub
               \<and> check_subgroup_names so repo sub (v @ [name self]) = Inr ys)) \<longrightarrow>
        unvisited repo v \<le> d \<longrightarrow>
        check_candidates_depth d so repo self v ns
          = Some (check_candidates so repo self v ns))"
proof (induction so repo self v and so repo self v ns
        rule: check_subgroup_names_check_candidates.induct)
  case (1 so repo self v)
  show ?case
  proof (intro allI impI)
    fix d
    assume so: "set_order_ok so" and ok: "repo_ok repo" and mem: "self \<in> set (repo_groups repo)"
      and off: "name self \<notin> set v" and d: "Suc (unvisited repo v) \<le> d"
    from d obtain d' where d': "d = Suc d'" and le: "unvisited repo v \<le> d'"
      by (cases d) auto
    have "subgroup_candidates so repo self = [] @ subgroup_candidates so repo self" by simp
    moreover have "\<forall>c \<in> set []. c \<notin> set v \<and>
            (\<exists>sub ys. get_group repo c = Inr sub
               \<and> check_subgroup_names so repo sub (v @ [name self]) = Inr ys)" by simp
    ultimately
    have "check_candidates_depth d' so repo self v (subgroup_candidates so repo self)
            = Some (check_candidates so repo self v (subgroup_candidates so repo self))"
      using 1 so ok mem off le by blast
    then show "check_subgroup_names_depth d so repo self v
          = Some (check_subgroup_names so repo self v)"
      unfolding d' by (rule frame_depth)
  qed
next
  case (2 so repo self v)
  show ?case by simp
next
  case (3 so repo self v n rest)
  show ?case
  proof (intro allI impI)
    fix pre d
    assume so: "set_order_ok so" and ok: "repo_ok repo" and mem: "self \<in> set (repo_groups repo)"
      and off: "name self \<notin> set v"
      and cands: "subgroup_candidates so repo self = pre @ n # rest"
      and pre: "\<forall>c \<in> set pre. c \<notin> set v \<and>
            (\<exists>sub ys. get_group repo c = Inr sub
               \<and> check_subgroup_names so repo sub (v @ [name self]) = Inr ys)"
      and d: "unvisited repo v \<le> d"
    let ?v' = "v @ [name self]"
    from unvisited_extend [OF mem off] have ext: "Suc (unvisited repo ?v') = unvisited repo v" .
    show "check_candidates_depth d so repo self v (n # rest)
          = Some (check_candidates so repo self v (n # rest))"
    proof (cases "n \<in> set v")
      case True
      then show ?thesis by simp
    next
      case nv: False
      show ?thesis
      proof (cases "get_group repo n")
        case (Inl e)
        with nv show ?thesis by simp
      next
        case g: (Inr sub)
        from get_group_Inr [OF g] have submem: "sub \<in> set (repo_groups repo)"
          and nm: "name sub = n" by simp_all
        have callee: "check_subgroup_names_depth d so repo sub ?v'
                        = Some (check_subgroup_names so repo sub ?v')"
        proof (cases "n = name self")
          case False
          with nv nm have "name sub \<notin> set ?v'" by simp
          moreover from ext d have "Suc (unvisited repo ?v') \<le> d" by simp
          ultimately show ?thesis
            using "3.IH"(1) [OF nv g] so ok submem by blast
        next
          case True
          with nm submem mem ok have sub_self: "sub = self"
            using repo_ok_name_eq by blast
          from ext d obtain d' where d': "d = Suc d'" and le: "unvisited repo ?v' \<le> d'"
            by (cases d) auto
          from so have "distinct (subgroup_candidates so repo self)"
            by (simp add: subgroup_candidates_def set_order_ok_def)
          with cands have npre: "n \<notin> set pre" by simp
          have pre': "\<forall>c \<in> set pre. c \<notin> set ?v' \<and>
            (\<exists>sub ys. get_group repo c = Inr sub
               \<and> check_subgroup_names so repo sub (?v' @ [name self]) = Inr ys)"
          proof
            fix c assume c: "c \<in> set pre"
            with pre obtain s ys where cv: "c \<notin> set v" and gs: "get_group repo c = Inr s"
              and r: "check_subgroup_names so repo s ?v' = Inr ys" by blast
            have "set (?v' @ [name self]) = set ?v'" by auto
            with return_depends_on_path_set(1) [of ?v' so repo s] r
            have "check_subgroup_names so repo s (?v' @ [name self]) = Inr ys" by blast
            moreover from c npre True cv have "c \<notin> set ?v'" by auto
            ultimately show "c \<notin> set ?v' \<and>
              (\<exists>sub ys. get_group repo c = Inr sub
                 \<and> check_subgroup_names so repo sub (?v' @ [name self]) = Inr ys)"
              using gs by blast
          qed
          have on: "name self \<in> set ?v'" and n_on: "n \<in> set ?v'" using True by simp_all
          from loop_after_returning_depth [OF so ok mem on n_on le pre', of rest]
          have "check_candidates_depth d' so repo self ?v' (subgroup_candidates so repo self)
                  = Some (check_candidates so repo self ?v' (subgroup_candidates so repo self))"
            unfolding cands .
          then have "check_subgroup_names_depth (Suc d') so repo self ?v'
                  = Some (check_subgroup_names so repo self ?v')"
            by (rule frame_depth)
          then show ?thesis unfolding d' sub_self .
        qed
        show ?thesis
        proof (rule candidates_depth_step [OF nv g callee])
          fix ys
          assume ys: "check_subgroup_names so repo sub ?v' = Inr ys"
          have "subgroup_candidates so repo self = (pre @ [n]) @ rest" using cands by simp
          moreover have "\<forall>c \<in> set (pre @ [n]). c \<notin> set v \<and>
            (\<exists>sub ys. get_group repo c = Inr sub
               \<and> check_subgroup_names so repo sub ?v' = Inr ys)"
            using pre nv g ys by auto
          ultimately show "check_candidates_depth d so repo self v rest
             = Some (check_candidates so repo self v rest)"
            using "3.IH"(2) [OF nv g ys] so ok mem off d by blast
        qed
      qed
    qed
  qed
qed

text \<open>The traversal of a group that is on the path, as the root is.\<close>

lemma on_path_candidates_depth:
  assumes so: "set_order_ok so" and ok: "repo_ok repo" and mem: "self \<in> set (repo_groups repo)"
    and on: "name self \<in> set v" and d: "Suc (unvisited repo v) \<le> d"
  shows "check_candidates_depth d so repo self v ns
           = Some (check_candidates so repo self v ns)"
proof (induction ns)
  case Nil
  show ?case by simp
next
  case (Cons n rest)
  show ?case
  proof (cases "n \<in> set v")
    case True
    then show ?thesis by simp
  next
    case nv: False
    show ?thesis
    proof (cases "get_group repo n")
      case (Inl e)
      with nv show ?thesis by simp
    next
      case g: (Inr sub)
      from get_group_Inr [OF g] have submem: "sub \<in> set (repo_groups repo)"
        and nm: "name sub = n" by simp_all
      from on have same: "set (v @ [name self]) = set v" by auto
      with nv nm have off: "name sub \<notin> set (v @ [name self])" by simp
      from unvisited_same_set [OF same] d
      have "Suc (unvisited repo (v @ [name self])) \<le> d" by simp
      with off_path_depth(1) [of so repo sub "v @ [name self]"] so ok submem off
      have callee: "check_subgroup_names_depth d so repo sub (v @ [name self])
                        = Some (check_subgroup_names so repo sub (v @ [name self]))"
        by blast
      show ?thesis
        by (rule candidates_depth_step [OF nv g callee]) (rule Cons.IH)
    qed
  qed
qed

text \<open>
  In the repository of \<open>A\<close> and \<open>B\<close>, where \<open>B\<close> lists itself, the traversal from \<open>A\<close> opens
  three nested calls (for \<open>A\<close>, for \<open>B\<close> and for \<open>B\<close> again) before the loop is found: a
  depth of two, the number of groups, is not enough.
\<close>

theorem depth_exceeds_group_count_counterexample:
  "repo_ok loop_repo \<and> loop_a \<in> set (repo_groups loop_repo)
   \<and> length (repo_groups loop_repo) = 2
   \<and> check_subgroup_names_depth 2 remdups loop_repo loop_a [name loop_a] = None
   \<and> check_subgroup_names_depth 3 remdups loop_repo loop_a [name loop_a]
       = Some (Inl (SubgroupLoop ''B'' [''B'', ''B'', ''B'']))"
  by (simp add: repo_ok_def loop_defs eval_defs numeral_2_eq_2 numeral_3_eq_3)

text \<open>
  C5 (amended). For every repository and every group of it, the traversal started by
  \<open>subgroups\<close> terminates, by returning or by raising, and the depth of its recursion
  never exceeds the number of groups of the repository plus one: with that many nested
  calls allowed, the depth-bounded traversal gives the result of the traversal.
\<close>

theorem recursion_depth_bound:
  assumes "set_order_ok so" and "repo_ok repo" and "self \<in> set (repo_groups repo)"
    and "length (repo_groups repo) + 1 \<le> d"
  shows "check_subgroup_names_depth d so repo self [name self]
           = Some (check_subgroup_names so repo self [name self])"
proof -
  from assms(4) obtain d' where d': "d = Suc d'" and le: "length (repo_groups repo) \<le> d'"
    by (cases d) auto
  from unvisited_root [OF assms(2,3)] le have "Suc (unvisited repo [name self]) \<le> d'"
    by simp
  from on_path_candidates_depth [OF assms(1-3) _ this]
  have "check_candidates_depth d' so repo self [name self] (subgroup_candidates so repo self)
          = Some (check_candidates so repo self [name self] (subgroup_candidates so repo self))"
    by simp
  then show ?thesis unfolding d' by (rule frame_depth)
qed

theorem recursion_depth_bound_witness:
  "set_order_ok remdups \<and> repo_ok loop_repo \<and> loop_a \<in> set (repo_groups loop_repo)
   \<and> length (repo_groups loop_repo) + 1 \<le> 3
   \<and> check_subgroup_names_depth 3 remdups loop_repo loop_a [name loop_a]
       = Some (check_subgroup_names remdups loop_repo loop_a [name loop_a])
   \<and> check_subgroup_names remdups loop_repo loop_a [name loop_a]
       = Inl (SubgroupLoop ''B'' [''B'', ''B'', ''B''])"
proof -
  have ok: "repo_ok loop_repo" by (simp add: repo_ok_def loop_defs mk_group_simps)
  have mem: "loop_a \<in> set (repo_groups loop_repo)" by (simp add: loop_repo_def)
  have len: "length (repo_groups loop_repo) + 1 \<le> 3" by (simp add: loop_repo_def)
  have v: "check_subgroup_names remdups loop_repo loop_a [name loop_a]
       = Inl (SubgroupLoop ''B'' [''B'', ''B'', ''B''])"
    by (simp add: loop_defs eval_defs)
  from recursion_depth_bound [OF set_order_ok_remdups ok mem len] ok mem len v
    set_order_ok_remdups
  show ?thesis by blast
qed

section \<open>Hashes\<close>

text \<open>Node names are unique within a repository.\<close>

definition nodes_ok :: "repository \<Rightarrow> bool" where
  "nodes_ok repo \<longleftrightarrow> distinct (map node_name (repo_nodes repo))"

lemma sort_mset_eq: "mset xs = mset ys \<Longrightarrow> sort xs = sort ys"
  by (rule properties_for_sort) simp_all

lemma sort_set_eq:
  assumes "distinct xs" and "distinct ys" and "set xs = set ys"
  shows "sort xs = sort ys"
proof -
  from assms have "mset xs = mset ys"
    by (simp add: set_eq_iff_mset_eq_distinct)
  then show ?thesis by (rule sort_mset_eq)
qed

lemma member_names_distinct: "nodes_ok repo \<Longrightarrow> distinct (names (nodes repo g))"
  by (simp add: nodes_ok_def names_def nodes_def distinct_map_filter)

lemma member_names_permuted:
  "mset (repo_nodes repo2) = mset (repo_nodes repo1) \<Longrightarrow>
     mset (names (nodes repo2 g)) = mset (names (nodes repo1 g))"
proof -
  assume "mset (repo_nodes repo2) = mset (repo_nodes repo1)"
  then have "mset (nodes repo2 g) = mset (nodes repo1 g)"
    unfolding nodes_def mset_filter by simp
  then have "image_mset node_name (mset (nodes repo2 g))
               = image_mset node_name (mset (nodes repo1 g))" by simp
  then show ?thesis by (simp add: names_def)
qed

text \<open>
  A digest has a fixed size, so it takes finitely many values; among the digests of
  infinitely many arguments two are equal.
\<close>

lemma finite_digest_collides:
  fixes f :: "nat \<Rightarrow> 'd::finite"
  shows "\<exists>i j. i \<noteq> j \<and> f i = f j"
proof (rule ccontr)
  assume "\<not> (\<exists>i j. i \<noteq> j \<and> f i = f j)"
  then have "inj f" by (auto simp: inj_def)
  moreover have "finite (range f)" by simp
  ultimately have "finite (UNIV :: nat set)" by (rule finite_imageD [rotated])
  then show False by simp
qed

text \<open>A node with the given name and state digest, which is in every group.\<close>

definition named_node :: "string \<Rightarrow> string \<Rightarrow> node" where
  "named_node n h =
     \<lparr> node_name = n, in_group = (\<lambda>g. True), node_hash = h, node_metadata_hash = [] \<rparr>"

definition one_node_repo :: "node \<Rightarrow> repository" where
  "one_node_repo n = \<lparr> repo_groups = [], repo_nodes = [n] \<rparr>"

lemma one_node_repo_simps:
  "nodes_ok (one_node_repo (named_node n h))"
  "nodes (one_node_repo (named_node n h)) g = [named_node n h]"
  "node_name (named_node n h) = n"
  "node_hash (named_node n h) = h"
  by (simp_all add: nodes_ok_def one_node_repo_def named_node_def nodes_def)

lemma replicate_differs: "i \<noteq> j \<Longrightarrow> replicate i c \<noteq> replicate j c"
  by (metis length_replicate)

text \<open>
  For every digest function with finitely many values there are two repositories in which
  a group has different sets of member node names and the same membership hash.
\<close>

theorem membership_hash_collision_counterexample:
  "\<forall>digest :: statedict \<Rightarrow> 'd::finite. \<exists>repo1 repo2 g.
     nodes_ok repo1 \<and> nodes_ok repo2
     \<and> set (names (nodes repo1 g)) \<noteq> set (names (nodes repo2 g))
     \<and> group_membership_hash digest repo1 g = group_membership_hash digest repo2 g"
proof
  fix digest :: "statedict \<Rightarrow> 'd"
  let ?name = "\<lambda>k. replicate k CHR ''n''"
  let ?repo = "\<lambda>k. one_node_repo (named_node (?name k) [])"
  obtain i j where ne: "i \<noteq> j"
    and eq: "digest (NameList [?name i]) = digest (NameList [?name j])"
    using finite_digest_collides [of "\<lambda>k. digest (NameList [?name k])"] by blast
  have h: "group_membership_hash digest (?repo k) g = digest (NameList [?name k])" for k g
    by (simp add: group_membership_hash_def hash_statedict_def names_def one_node_repo_simps)
  have "set (names (nodes (?repo i) undefined)) \<noteq> set (names (nodes (?repo j) undefined))"
    using replicate_differs [OF ne] by (simp add: names_def one_node_repo_simps)
  moreover have "group_membership_hash digest (?repo i) undefined
                   = group_membership_hash digest (?repo j) undefined"
    using eq by (simp only: h)
  moreover have "nodes_ok (?repo i)" and "nodes_ok (?repo j)"
    by (rule one_node_repo_simps)+
  ultimately show "\<exists>repo1 repo2 g.
     nodes_ok repo1 \<and> nodes_ok repo2
     \<and> set (names (nodes repo1 g)) \<noteq> set (names (nodes repo2 g))
     \<and> group_membership_hash digest repo1 g = group_membership_hash digest repo2 g"
    by blast
qed

text \<open>
  C6 (amended). The membership hash of a group is the digest of the sorted list of its
  member node names. It is the same for two repositories whose node sequences are
  permutations of each other. The sorted list that is digested changes exactly when the set
  of member node names changes, so the hash changes only if that set changes; when the set
  changes, the hash changes unless the digest function gives the two lists the same value.
\<close>

theorem group_membership_hash_by_member_names:
  assumes "nodes_ok repo1" and "nodes_ok repo2"
  shows "group_membership_hash digest repo1 g
           = digest (NameList (sort (names (nodes repo1 g))))
       \<and> (mset (repo_nodes repo2) = mset (repo_nodes repo1) \<longrightarrow>
            group_membership_hash digest repo2 g = group_membership_hash digest repo1 g)
       \<and> (NameList (sort (names (nodes repo1 g))) = NameList (sort (names (nodes repo2 g)))
            \<longleftrightarrow> set (names (nodes repo1 g)) = set (names (nodes repo2 g)))
       \<and> (group_membership_hash digest repo1 g \<noteq> group_membership_hash digest repo2 g \<longrightarrow>
            set (names (nodes repo1 g)) \<noteq> set (names (nodes repo2 g)))"
proof -
  have by_set: "sort (names (nodes repo1 g)) = sort (names (nodes repo2 g))"
    if "set (names (nodes repo1 g)) = set (names (nodes repo2 g))"
    using member_names_distinct [OF assms(1)] member_names_distinct [OF assms(2)] that
    by (rule sort_set_eq)
  have c1: "group_membership_hash digest repo1 g
           = digest (NameList (sort (names (nodes repo1 g))))"
    by (simp add: group_membership_hash_def hash_statedict_def)
  have c2: "group_membership_hash digest repo2 g = group_membership_hash digest repo1 g"
    if "mset (repo_nodes repo2) = mset (repo_nodes repo1)"
  proof -
    from that have "sort (names (nodes repo2 g)) = sort (names (nodes repo1 g))"
      by (intro sort_mset_eq member_names_permuted)
    then show ?thesis by (simp add: group_membership_hash_def)
  qed
  have c3: "NameList (sort (names (nodes repo1 g))) = NameList (sort (names (nodes repo2 g)))
            \<longleftrightarrow> set (names (nodes repo1 g)) = set (names (nodes repo2 g))"
  proof
    assume "NameList (sort (names (nodes repo1 g))) = NameList (sort (names (nodes repo2 g)))"
    then have "set (sort (names (nodes repo1 g))) = set (sort (names (nodes repo2 g)))"
      by simp
    then show "set (names (nodes repo1 g)) = set (names (nodes repo2 g))" by simp
  next
    assume "set (names (nodes repo1 g)) = set (names (nodes repo2 g))"
    then show "NameList (sort (names (nodes repo1 g))) = NameList (sort (names (nodes repo2 g)))"
      using by_set by simp
  qed
  have c4: "set (names (nodes repo1 g)) \<noteq> set (names (nodes repo2 g))"
    if "group_membership_hash digest repo1 g \<noteq> group_membership_hash digest repo2 g"
    using that by_set by (auto simp: group_membership_hash_def)
  from c1 c2 c3 c4 show ?thesis by blast
qed

















section \<open>Examples of hashes\<close>

text \<open>Two nodes in the group \<open>web\<close> and one outside it, in two orders.\<close>

definition node1 :: node where
  "node1 = \<lparr> node_name = ''node1'', in_group = (\<lambda>g. g = ''web''), node_hash = ''h1'',
             node_metadata_hash = ''m1'' \<rparr>"

definition node2 :: node where
  "node2 = \<lparr> node_name = ''node2'', in_group = (\<lambda>g. g = ''web''), node_hash = ''h2'',
             node_metadata_hash = ''m2'' \<rparr>"

definition node3 :: node where
  "node3 = \<lparr> node_name = ''node3'', in_group = (\<lambda>g. g = ''db''), node_hash = ''h3'',
             node_metadata_hash = ''m3'' \<rparr>"

definition nodes_repo :: repository where
  "nodes_repo = \<lparr> repo_groups = [web], repo_nodes = [node2, node3, node1] \<rparr>"

definition nodes_repo_rev :: repository where
  "nodes_repo_rev = \<lparr> repo_groups = [web], repo_nodes = [node1, node3, node2] \<rparr>"

lemmas node_defs = nodes_repo_def nodes_repo_rev_def node1_def node2_def node3_def web_def

lemma nodes_repo_ok: "nodes_ok nodes_repo" "nodes_ok nodes_repo_rev"
  by (simp_all add: nodes_ok_def node_defs)

lemma nodes_repo_perm: "mset (repo_nodes nodes_repo_rev) = mset (repo_nodes nodes_repo)"
  by (simp add: nodes_repo_def nodes_repo_rev_def)

theorem group_membership_hash_by_member_names_witness:
  "\<forall>digest :: statedict \<Rightarrow> 'd.
     nodes_ok nodes_repo \<and> nodes_ok nodes_repo_rev
     \<and> mset (repo_nodes nodes_repo_rev) = mset (repo_nodes nodes_repo)
     \<and> names (nodes nodes_repo web) = [''node2'', ''node1'']
     \<and> names (nodes nodes_repo_rev web) = [''node1'', ''node2'']
     \<and> group_membership_hash digest nodes_repo_rev web
         = group_membership_hash digest nodes_repo web
     \<and> group_membership_hash digest nodes_repo web = digest (NameList [''node1'', ''node2''])"
proof
  fix digest :: "statedict \<Rightarrow> 'd"
  note t = group_membership_hash_by_member_names
             [OF nodes_repo_ok, where digest = digest and g = web]
  from t nodes_repo_perm
  have eq: "group_membership_hash digest nodes_repo_rev web
       = group_membership_hash digest nodes_repo web" by blast
  have n1: "names (nodes nodes_repo web) = [''node2'', ''node1'']"
    and n2: "names (nodes nodes_repo_rev web) = [''node1'', ''node2'']"
    by (simp_all add: nodes_def names_def node_defs mk_group_simps)
  from t have "group_membership_hash digest nodes_repo web
                 = digest (NameList (sort (names (nodes nodes_repo web))))" by blast
  then have v: "group_membership_hash digest nodes_repo web
                  = digest (NameList [''node1'', ''node2''])"
    by (simp add: n1)
  from nodes_repo_ok nodes_repo_perm n1 n2 eq v
  show "nodes_ok nodes_repo \<and> nodes_ok nodes_repo_rev
     \<and> mset (repo_nodes nodes_repo_rev) = mset (repo_nodes nodes_repo)
     \<and> names (nodes nodes_repo web) = [''node2'', ''node1'']
     \<and> names (nodes nodes_repo_rev web) = [''node1'', ''node2'']
     \<and> group_membership_hash digest nodes_repo_rev web
         = group_membership_hash digest nodes_repo web
     \<and> group_membership_hash digest nodes_repo web = digest (NameList [''node1'', ''node2''])"
    by blast
qed


end
